theory Spec2Isabelle
  imports Main "HOL-Library.Word" "HOL-Library.Monad_Syntax"
begin

unbundle bit_operations_syntax

section \<open>Bit-packed sequence of eastl/bitvector.h\<close>

text \<open>
  The embedding follows \<^verbatim>\<open>src/bitvector.h\<close>.

  \<^item> \<^verbatim>\<open>Element\<close> is a word \<open>'a word\<close>; \<^verbatim>\<open>kBitCount = 8 * sizeof(Element)\<close> is
    \<open>LENGTH('a)\<close>.
  \<^item> \<^verbatim>\<open>size_type\<close> (\<^verbatim>\<open>eastl_size_t\<close>) is a word \<open>'s word\<close>: its arithmetic wraps. Its
    width is fixed in \<^verbatim>\<open>config.h\<close>, outside the sources at hand, and stays a parameter.
  \<^item> \<^verbatim>\<open>difference_type\<close> and word addresses are integers. A \<^verbatim>\<open>size_type\<close> value
    converted to \<^verbatim>\<open>difference_type\<close> is read in two's complement (\<open>sint\<close>). Signed
    overflow and address arithmetic outside an object are undefined in C++ and are
    not given a meaning here.
  \<^item> Word addresses are relative to the first word of the store that an iterator
    ranges over: \<^verbatim>\<open>&mContainer[0]\<close> is address 0, \<^verbatim>\<open>mContainer.end()\<close> is the word
    count. A reallocation, which moves the store as a whole, does not change
    relative addresses.
  \<^item> A read or write through a reference that leaves the words of the store, or
    whose bit offset is not below \<^verbatim>\<open>kBitCount\<close>, has no defined result: \<open>None\<close>.
\<close>

subsection \<open>bitvector_reference\<close>

datatype 'a bitvector_reference = Reference (mpBitWord: int) (mnBitIndex: nat)

definition store :: "'e list \<Rightarrow> int \<Rightarrow> 'e option" where
  "store c a = (if 0 \<le> a \<and> a < int (length c) then Some (c ! nat a) else None)"

text \<open>\<^verbatim>\<open>operator bool\<close>: \<^verbatim>\<open>(*mpBitWord & (Element(1) << mnBitIndex)) != 0\<close>, read from
  a memory that maps word addresses to words.\<close>

definition ref_bool :: "(int \<Rightarrow> 'a::len word option) \<Rightarrow> 'a bitvector_reference \<Rightarrow> bool option" where
  "ref_bool mem r =
     (if mnBitIndex r < LENGTH('a)
      then map_option (\<lambda>w. w AND push_bit (mnBitIndex r) 1 \<noteq> 0) (mem (mpBitWord r))
      else None)"

text \<open>\<^verbatim>\<open>operator=(bool value)\<close>: set or clear the bit under \<^verbatim>\<open>mask\<close>.\<close>

definition ref_assign :: "'a::len word list \<Rightarrow> 'a bitvector_reference \<Rightarrow> bool \<Rightarrow> 'a word list option" where
  "ref_assign c r v =
     (case store c (mpBitWord r) of
        None \<Rightarrow> None
      | Some w \<Rightarrow>
          if mnBitIndex r < LENGTH('a)
          then (let mask = push_bit (mnBitIndex r) 1
                in Some (c[nat (mpBitWord r) := (if v then w OR mask else w AND NOT mask)]))
          else None)"

subsection \<open>bitvector_const_iterator and bitvector_iterator\<close>

text \<open>An iterator is its \<^verbatim>\<open>mReference\<close>.\<close>

definition iter_inc :: "'a::len bitvector_reference \<Rightarrow> 'a bitvector_reference" where
  "iter_inc it =
     (let i = mnBitIndex it + 1
      in if i = LENGTH('a) then Reference (mpBitWord it + 1) 0 else Reference (mpBitWord it) i)"

definition iter_dec :: "'a::len bitvector_reference \<Rightarrow> 'a bitvector_reference" where
  "iter_dec it =
     (let r = (if mnBitIndex it = 0 then Reference (mpBitWord it - 1) LENGTH('a) else it)
      in Reference (mpBitWord r) (mnBitIndex r - 1))"

text \<open>\<^verbatim>\<open>operator+=\<close>. In the first branch \<^verbatim>\<open>n\<close> is not negative, where C++'s
  truncating \<^verbatim>\<open>/\<close> and \<^verbatim>\<open>%\<close> agree with \<open>div\<close> and \<open>mod\<close>. In the second branch
  \<^verbatim>\<open>backwards\<close> is a positive \<^verbatim>\<open>size_type\<close>.\<close>

definition iter_add :: "'a::len bitvector_reference \<Rightarrow> int \<Rightarrow> 'a bitvector_reference" where
  "iter_add it dist =
     (let n = dist + int (mnBitIndex it)
      in if n \<ge> 0
         then Reference (mpBitWord it + n div int LENGTH('a)) (nat (n mod int LENGTH('a)))
         else (let backwards = nat (- n + int LENGTH('a) - 1)
               in Reference (mpBitWord it - int (backwards div LENGTH('a)))
                    ((LENGTH('a) - 1) - (backwards mod LENGTH('a)))))"

definition iter_sub :: "'a::len bitvector_reference \<Rightarrow> int \<Rightarrow> 'a bitvector_reference" where
  "iter_sub it dist = iter_add it (- dist)"

text \<open>\<^verbatim>\<open>operator-(const this_type& rhs)\<close>, the distance.\<close>

definition iter_diff :: "'a::len bitvector_reference \<Rightarrow> 'a bitvector_reference \<Rightarrow> int" where
  "iter_diff it rhs =
     ((mpBitWord it - mpBitWord rhs) * int LENGTH('a)) + int (mnBitIndex it) - int (mnBitIndex rhs)"

definition iter_eq :: "'a bitvector_reference \<Rightarrow> 'a bitvector_reference \<Rightarrow> bool" where
  "iter_eq it rhs \<longleftrightarrow> mpBitWord it = mpBitWord rhs \<and> mnBitIndex it = mnBitIndex rhs"

definition iter_less :: "'a bitvector_reference \<Rightarrow> 'a bitvector_reference \<Rightarrow> bool" where
  "iter_less it rhs \<longleftrightarrow>
     mpBitWord it < mpBitWord rhs \<or> (mpBitWord it = mpBitWord rhs \<and> mnBitIndex it < mnBitIndex rhs)"

definition iter_le :: "'a bitvector_reference \<Rightarrow> 'a bitvector_reference \<Rightarrow> bool" where
  "iter_le it rhs \<longleftrightarrow>
     mpBitWord it < mpBitWord rhs \<or> (mpBitWord it = mpBitWord rhs \<and> mnBitIndex it \<le> mnBitIndex rhs)"

text \<open>The canonical form of an iterator: its bit offset is below \<^verbatim>\<open>kBitCount\<close>.\<close>

definition canonical :: "'a::len bitvector_reference \<Rightarrow> bool" where
  "canonical it \<longleftrightarrow> mnBitIndex it < LENGTH('a)"

text \<open>The flags of \<^verbatim>\<open>iterator_status_flag\<close>, declared outside the sources at hand;
  they are distinct bits, with \<^verbatim>\<open>isf_none\<close> the empty set of flags.\<close>

definition isf_none :: nat where "isf_none = 0"
definition isf_valid :: nat where "isf_valid = 1"
definition isf_current :: nat where "isf_current = 2"
definition isf_can_dereference :: nat where "isf_can_dereference = 4"

text \<open>\<^verbatim>\<open>validate\<close>. The test \<^verbatim>\<open>pCurrent == pEnd && mReference\<close> converts the reference
  to \<^verbatim>\<open>bool\<close>, which reads the word at \<^verbatim>\<open>pEnd\<close>.\<close>

definition validate ::
  "(int \<Rightarrow> 'a::len word option) \<Rightarrow> 'a bitvector_reference \<Rightarrow> int \<Rightarrow> int \<Rightarrow> 's::len word \<Rightarrow> nat option" where
  "validate mem it pStart pEnd nExtraBits =
     (let pCurrent = mpBitWord it
      in if pCurrent \<ge> pStart then
           if nExtraBits = 0 then
             if pCurrent = pEnd then
               (case ref_bool mem it of
                  None \<Rightarrow> None
                | Some True \<Rightarrow> Some (isf_valid OR isf_current)
                | Some False \<Rightarrow>
                    if pCurrent < pEnd
                    then Some (isf_valid OR isf_current OR isf_can_dereference)
                    else Some isf_none)
             else if pCurrent < pEnd
             then Some (isf_valid OR isf_current OR isf_can_dereference)
             else Some isf_none
           else if pCurrent = pEnd - 1 then
             (let bit = (of_nat (mnBitIndex it) :: 's word);
                  lastbit = of_nat LENGTH('a) - nExtraBits
              in if bit = lastbit then Some (isf_valid OR isf_current)
                 else if bit < lastbit
                 then Some (isf_valid OR isf_current OR isf_can_dereference)
                 else Some isf_none)
           else if pCurrent < pEnd
           then Some (isf_valid OR isf_current OR isf_can_dereference)
           else Some isf_none
         else Some isf_none)"

subsection \<open>MoveBits\<close>

text \<open>The two loops of \<^verbatim>\<open>MoveBits\<close> run while \<^verbatim>\<open>start != end\<close>, which need not
  become false: not returning is \<open>None\<close>.\<close>

partial_function (option) MoveBits_forward ::
  "'a::len word list \<Rightarrow> 'a bitvector_reference \<Rightarrow> 'a bitvector_reference \<Rightarrow> 'a bitvector_reference
   \<Rightarrow> 'a word list option" where
  "MoveBits_forward c start stop dest =
     (if start \<noteq> stop
      then ref_bool (store c) start \<bind> (\<lambda>b.
           ref_assign c dest b \<bind> (\<lambda>c'.
           MoveBits_forward c' (iter_inc start) stop (iter_inc dest)))
      else Some c)"

partial_function (option) MoveBits_backward ::
  "'a::len word list \<Rightarrow> 'a bitvector_reference \<Rightarrow> 'a bitvector_reference \<Rightarrow> 'a bitvector_reference
   \<Rightarrow> 'a word list option" where
  "MoveBits_backward c start stop dest =
     (if start \<noteq> stop
      then ref_bool (store c) (iter_dec stop) \<bind> (\<lambda>b.
           ref_assign c (iter_dec dest) b \<bind> (\<lambda>c'.
           MoveBits_backward c' start (iter_dec stop) (iter_dec dest)))
      else Some c)"

definition MoveBits ::
  "'a::len word list \<Rightarrow> 'a bitvector_reference \<Rightarrow> 'a bitvector_reference \<Rightarrow> 'a bitvector_reference
   \<Rightarrow> 'a word list option" where
  "MoveBits c start stop dest =
     (if iter_le dest start
      then MoveBits_forward c start stop dest
      else MoveBits_backward c start stop (iter_add dest (iter_diff stop start)))"

subsection \<open>The word store\<close>

text \<open>Modelled from the spec: the growable word store (\<^verbatim>\<open>eastl::vector<Element>\<close>, not among
  the sources at hand) is an array of words that is pushed and popped at the tail,
  resized and indexed. It is the list of its words. The content of a word that the
  store creates without a fill value is not specified: \<open>junk i\<close> stands for the content
  of a created word at index \<open>i\<close>. The capacity is not part of the model:
  \<^verbatim>\<open>reserve\<close> and \<^verbatim>\<open>setCapacity\<close>, which change the capacity only, leave the words as they
  are.\<close>

definition vector_size :: "'e list \<Rightarrow> 's::len word" where
  "vector_size c = of_nat (length c)"

definition vector_pushBack :: "'e list \<Rightarrow> (nat \<Rightarrow> 'e) \<Rightarrow> 'e list" where
  "vector_pushBack c junk = c @ [junk (length c)]"

definition vector_popBack :: "'e list \<Rightarrow> 'e list" where
  "vector_popBack c = butlast c"

definition vector_resize :: "'e list \<Rightarrow> 's::len word \<Rightarrow> (nat \<Rightarrow> 'e) \<Rightarrow> 'e list" where
  "vector_resize c n junk =
     (if unat n \<le> length c then take (unat n) c else c @ map junk [length c ..< unat n])"

definition vector_resize_value :: "'e list \<Rightarrow> 's::len word \<Rightarrow> 'e \<Rightarrow> 'e list" where
  "vector_resize_value c n e = vector_resize c n (\<lambda>_. e)"

text \<open>A word store that fills the words it creates with zero.\<close>

definition zero_fill :: "nat \<Rightarrow> 'a::len word" where
  "zero_fill i = 0"

definition npos :: "'s::len word" where
  "npos = - 1"

definition vector_setCapacity :: "'e list \<Rightarrow> 's::len word \<Rightarrow> 'e list" where
  "vector_setCapacity c n = c"

subsection \<open>bitvector\<close>

record ('e, 'z) bitvector =
  mContainer :: "'e list"
  mFreeBitCount :: 'z

definition size_bv :: "('a::len word, 's::len word) bitvector \<Rightarrow> 's word" where
  "size_bv bv = (vector_size (mContainer bv) * of_nat LENGTH('a)) - mFreeBitCount bv"

definition empty_bv :: "('a::len word, 's::len word) bitvector \<Rightarrow> bool" where
  "empty_bv bv \<longleftrightarrow> mContainer bv = []"

definition begin_bv :: "('a::len word, 's::len word) bitvector \<Rightarrow> 'a bitvector_reference" where
  "begin_bv bv = Reference 0 0"

definition end_bv :: "('a::len word, 's::len word) bitvector \<Rightarrow> 'a bitvector_reference" where
  "end_bv bv = iter_sub (Reference (int (length (mContainer bv))) 0) (sint (mFreeBitCount bv))"

definition pushBack ::
  "(nat \<Rightarrow> 'a::len word) \<Rightarrow> ('a word, 's::len word) bitvector \<Rightarrow> ('a word, 's word) bitvector" where
  "pushBack junk bv =
     (let bv1 = (if mFreeBitCount bv = 0
                 then \<lparr>mContainer = vector_pushBack (mContainer bv) junk,
                       mFreeBitCount = of_nat LENGTH('a)\<rparr>
                 else bv)
      in bv1\<lparr>mFreeBitCount := mFreeBitCount bv1 - 1\<rparr>)"

definition pushBack_value ::
  "(nat \<Rightarrow> 'a::len word) \<Rightarrow> ('a word, 's::len word) bitvector \<Rightarrow> bool
   \<Rightarrow> ('a word, 's word) bitvector option" where
  "pushBack_value junk bv v =
     (let bv1 = pushBack junk bv
      in map_option (\<lambda>c. bv1\<lparr>mContainer := c\<rparr>)
           (ref_assign (mContainer bv1) (iter_dec (end_bv bv1)) v))"

text \<open>\<^verbatim>\<open>popBack\<close> asserts \<^verbatim>\<open>!empty()\<close>; a call on an empty sequence has no result here.\<close>

definition popBack :: "('a::len word, 's::len word) bitvector \<Rightarrow> ('a word, 's word) bitvector option" where
  "popBack bv =
     (if empty_bv bv then None
      else (let f = mFreeBitCount bv + 1
            in if f = of_nat LENGTH('a)
               then Some \<lparr>mContainer = vector_popBack (mContainer bv), mFreeBitCount = 0\<rparr>
               else Some (bv\<lparr>mFreeBitCount := f\<rparr>)))"

definition resize ::
  "(nat \<Rightarrow> 'a::len word) \<Rightarrow> ('a word, 's::len word) bitvector \<Rightarrow> 's word
   \<Rightarrow> ('a word, 's word) bitvector" where
  "resize junk bv n =
     (let wordCount = (n + of_nat LENGTH('a) - 1) div of_nat LENGTH('a);
          extra = (wordCount * of_nat LENGTH('a)) - n
      in \<lparr>mContainer = vector_resize (mContainer bv) wordCount junk, mFreeBitCount = extra\<rparr>)"

text \<open>The loop \<^verbatim>\<open>while(mFreeBitCount && newbits)\<close> of \<^verbatim>\<open>resize(n, value)\<close>; it returns
  the sequence and what is left of \<^verbatim>\<open>newbits\<close>.\<close>

function resize_fill_loop ::
  "(nat \<Rightarrow> 'a::len word) \<Rightarrow> ('a word, 's::len word) bitvector \<Rightarrow> 's word \<Rightarrow> bool
   \<Rightarrow> (('a word, 's word) bitvector \<times> 's word) option" where
  "resize_fill_loop junk bv newbits v =
     (if mFreeBitCount bv \<noteq> 0 \<and> newbits \<noteq> 0
      then (case pushBack_value junk bv v of
              None \<Rightarrow> None
            | Some bv' \<Rightarrow> resize_fill_loop junk bv' (newbits - 1) v)
      else Some (bv, newbits))"
  by pat_completeness auto
termination
  by (relation "measure (\<lambda>(junk, bv, newbits, v). unat newbits)")
     (auto simp: unat_minus_one unat_gt_0)

declare resize_fill_loop.simps [simp del]

definition resize_value ::
  "(nat \<Rightarrow> 'a::len word) \<Rightarrow> ('a word, 's::len word) bitvector \<Rightarrow> 's word \<Rightarrow> bool
   \<Rightarrow> ('a word, 's word) bitvector option" where
  "resize_value junk bv n v =
     (let s = size_bv bv;
          bv1 = (if n < s then resize junk bv n else bv);
          newbits = n - s
      in case resize_fill_loop junk bv1 newbits v of
           None \<Rightarrow> None
         | Some (bv2, newbits') \<Rightarrow>
             if newbits' \<noteq> 0
             then (let element = (if v then NOT 0 else 0);
                       words = (n + of_nat LENGTH('a) - 1) div of_nat LENGTH('a);
                       extra = words * of_nat LENGTH('a) - n
                   in Some \<lparr>mContainer = vector_resize_value (mContainer bv2) words element,
                            mFreeBitCount = extra\<rparr>)
             else Some bv2)"

definition test :: "('a::len word, 's::len word) bitvector \<Rightarrow> 's word \<Rightarrow> bool \<Rightarrow> bool option" where
  "test bv n defaultValue =
     (if n < size_bv bv
      then ref_bool (store (mContainer bv)) (iter_add (begin_bv bv) (sint n))
      else Some defaultValue)"

definition set_bv ::
  "(nat \<Rightarrow> 'a::len word) \<Rightarrow> ('a word, 's::len word) bitvector \<Rightarrow> 's word \<Rightarrow> bool
   \<Rightarrow> ('a word, 's word) bitvector option" where
  "set_bv junk bv n v =
     (let bv1 = (if n \<ge> size_bv bv then resize junk bv (n + 1) else bv)
      in map_option (\<lambda>c. bv1\<lparr>mContainer := c\<rparr>)
           (ref_assign (mContainer bv1) (iter_add (begin_bv bv1) (sint n)) v))"

datatype error = out_of_range

text \<open>\<^verbatim>\<open>at\<close>. The check is compiled under \<^verbatim>\<open>EASTL_EXCEPTIONS_ENABLED\<close>, a setting of
  \<^verbatim>\<open>config.h\<close> that is the first argument here. Without exceptions the check is at
  most a diagnostic assertion, after which the function goes on.\<close>

definition at_bv ::
  "bool \<Rightarrow> ('a::len word, 's::len word) bitvector \<Rightarrow> 's word \<Rightarrow> error + 'a bitvector_reference" where
  "at_bv exceptions_enabled bv n =
     (if exceptions_enabled \<and> n \<ge> size_bv bv then Inl out_of_range
      else Inr (iter_add (begin_bv bv) (sint n)))"

text \<open>\<^verbatim>\<open>operator[]\<close>, mutable and \<^verbatim>\<open>const\<close>.\<close>

definition index_ref :: "('a::len word, 's::len word) bitvector \<Rightarrow> 's word \<Rightarrow> 'a bitvector_reference" where
  "index_ref bv n = iter_add (begin_bv bv) (sint n)"

definition index_const :: "('a::len word, 's::len word) bitvector \<Rightarrow> 's word \<Rightarrow> bool option" where
  "index_const bv n = ref_bool (store (mContainer bv)) (iter_add (begin_bv bv) (sint n))"

text \<open>\<^verbatim>\<open>validateIterator\<close>. The memory that \<^verbatim>\<open>validate\<close> may read is the store itself
  and the word at \<^verbatim>\<open>mContainer.end()\<close>: \<open>beyond\<close> is this word, or \<open>None\<close> when no
  memory is mapped there.\<close>

definition validateIterator ::
  "('a::len word, 's::len word) bitvector \<Rightarrow> 'a word option \<Rightarrow> 'a bitvector_reference \<Rightarrow> nat option" where
  "validateIterator bv beyond i =
     validate ((store (mContainer bv)) (int (length (mContainer bv)) := beyond)) i
       0 (int (length (mContainer bv))) (mFreeBitCount bv)"

text \<open>The diagnostic checks of \<^verbatim>\<open>insert\<close> and \<^verbatim>\<open>erase\<close> are compiled under
  \<^verbatim>\<open>EASTL_ASSERT_ENABLED\<close>, a setting of \<^verbatim>\<open>config.h\<close>, outside the sources at hand: it is the
  argument \<open>asserts\<close>. A check passes when \<^verbatim>\<open>validateIterator\<close> returns with the flag that is
  asked for. A check that fails ends the operation in \<^verbatim>\<open>EASTL_FAIL_MSG\<close>, and a check that
  reads outside the store has no defined result: both are \<open>None\<close>. Where the failure
  handler returns, the operation goes on as it does without assertions.\<close>

definition assert_iterator ::
  "bool \<Rightarrow> ('a::len word, 's::len word) bitvector \<Rightarrow> 'a bitvector_reference \<Rightarrow> nat
   \<Rightarrow> unit option" where
  "assert_iterator asserts bv i flag =
     (if asserts
      then validateIterator bv None i \<bind> (\<lambda>flags. if flags AND flag = 0 then None else Some ())
      else Some ())"

text \<open>\<^verbatim>\<open>insert\<close> may move the store, since \<^verbatim>\<open>pushBack\<close> and \<^verbatim>\<open>resize\<close> can reallocate it.
  The iterators of \<^verbatim>\<open>insert\<close> hold absolute word addresses: \<open>base\<close> is the address of the
  first word of the store when \<^verbatim>\<open>insert\<close> is called, \<open>base'\<close> its address after the growth,
  the same address when the store has not moved. \<open>rebase b it\<close> is the iterator \<open>it\<close> seen
  from the store whose first word is at \<open>b\<close>: memory is read and written at the word
  address relative to the store.\<close>

definition rebase :: "int \<Rightarrow> 'a bitvector_reference \<Rightarrow> 'a bitvector_reference" where
  "rebase base it = Reference (mpBitWord it - base) (mnBitIndex it)"

definition begin_at :: "int \<Rightarrow> ('a::len word, 's::len word) bitvector \<Rightarrow> 'a bitvector_reference" where
  "begin_at base bv = Reference base 0"

definition end_at :: "int \<Rightarrow> ('a::len word, 's::len word) bitvector \<Rightarrow> 'a bitvector_reference" where
  "end_at base bv =
     iter_sub (Reference (base + int (length (mContainer bv))) 0) (sint (mFreeBitCount bv))"

text \<open>\<^verbatim>\<open>insert(position, value)\<close>. The result is the sequence and the returned
  iterator.\<close>

definition insert_bv ::
  "bool \<Rightarrow> (nat \<Rightarrow> 'a::len word) \<Rightarrow> int \<Rightarrow> int \<Rightarrow> ('a word, 's::len word) bitvector
   \<Rightarrow> 'a bitvector_reference \<Rightarrow> bool
   \<Rightarrow> (('a word, 's word) bitvector \<times> 'a bitvector_reference) option" where
  "insert_bv asserts junk base base' bv position v =
     assert_iterator asserts bv (rebase base position) isf_valid \<bind> (\<lambda>_.
     (let n = iter_diff position (begin_at base bv);
          bv1 = pushBack junk bv;
          position' = iter_add (begin_at base' bv1) n
      in MoveBits (mContainer bv1) (rebase base' position')
                  (rebase base' (iter_dec (end_at base' bv1)))
                  (rebase base' (iter_inc position')) \<bind> (\<lambda>c.
         ref_assign c (rebase base' position') v \<bind> (\<lambda>c'.
         Some (bv1\<lparr>mContainer := c'\<rparr>, position')))))"

text \<open>The loop \<^verbatim>\<open>while(position != insert_end)\<close> of \<^verbatim>\<open>insert(position, n, value)\<close>.\<close>

partial_function (option) insert_fill_loop ::
  "'a::len word list \<Rightarrow> 'a bitvector_reference \<Rightarrow> 'a bitvector_reference \<Rightarrow> bool
   \<Rightarrow> 'a word list option" where
  "insert_fill_loop c position insert_end v =
     (if position \<noteq> insert_end
      then ref_assign c position v \<bind> (\<lambda>c'. insert_fill_loop c' (iter_inc position) insert_end v)
      else Some c)"

definition insert_n ::
  "bool \<Rightarrow> (nat \<Rightarrow> 'a::len word) \<Rightarrow> int \<Rightarrow> int \<Rightarrow> ('a word, 's::len word) bitvector
   \<Rightarrow> 'a bitvector_reference \<Rightarrow> 's word \<Rightarrow> bool \<Rightarrow> ('a word, 's word) bitvector option" where
  "insert_n asserts junk base base' bv position n v =
     assert_iterator asserts bv (rebase base position) isf_valid \<bind> (\<lambda>_.
     (let p = iter_diff position (begin_at base bv);
          bv1 = resize junk bv (size_bv bv + n);
          position' = iter_add (begin_at base' bv1) p;
          insert_end = iter_add position' (sint n)
      in MoveBits (mContainer bv1) (rebase base' position')
                  (rebase base' (iter_sub (end_at base' bv1) (sint n)))
                  (rebase base' insert_end) \<bind> (\<lambda>c.
         insert_fill_loop c (rebase base' position') (rebase base' insert_end) v \<bind> (\<lambda>c'.
         Some (bv1\<lparr>mContainer := c'\<rparr>)))))"

text \<open>\<^verbatim>\<open>erase(position)\<close> and \<^verbatim>\<open>erase(first, last)\<close>. They do not move the store, and
  their addresses are relative to it. The result is the sequence and the returned
  iterator.\<close>

definition erase_position ::
  "bool \<Rightarrow> (nat \<Rightarrow> 'a::len word) \<Rightarrow> ('a word, 's::len word) bitvector \<Rightarrow> 'a bitvector_reference
   \<Rightarrow> (('a word, 's word) bitvector \<times> 'a bitvector_reference) option" where
  "erase_position asserts junk bv position =
     assert_iterator asserts bv position isf_can_dereference \<bind> (\<lambda>_.
     MoveBits (mContainer bv) (iter_inc position) (end_bv bv) position \<bind> (\<lambda>c.
     (let bv1 = bv\<lparr>mContainer := c\<rparr>;
          bv2 = resize junk bv1 (size_bv bv1 - 1)
      in assert_iterator asserts bv2 position isf_valid \<bind> (\<lambda>_.
         Some (bv2, position)))))"

definition erase ::
  "bool \<Rightarrow> (nat \<Rightarrow> 'a::len word) \<Rightarrow> ('a word, 's::len word) bitvector \<Rightarrow> 'a bitvector_reference
   \<Rightarrow> 'a bitvector_reference \<Rightarrow> (('a word, 's word) bitvector \<times> 'a bitvector_reference) option" where
  "erase asserts junk bv first last' =
     assert_iterator asserts bv last' isf_valid \<bind> (\<lambda>_.
     (if \<not> iter_eq first last'
      then assert_iterator asserts bv first isf_can_dereference \<bind> (\<lambda>_.
           (let eraseCount = (word_of_int (iter_diff last' first) :: 's word)
            in MoveBits (mContainer bv) last' (end_bv bv) first \<bind> (\<lambda>c.
               (let bv1 = bv\<lparr>mContainer := c\<rparr>;
                    bv2 = resize junk bv1 (size_bv bv1 - eraseCount)
                in assert_iterator asserts bv2 first isf_valid \<bind> (\<lambda>_.
                   Some (bv2, first))))))
      else Some (bv, first)))"

definition clear :: "('a::len word, 's::len word) bitvector \<Rightarrow> ('a word, 's word) bitvector" where
  "clear bv = \<lparr>mContainer = [], mFreeBitCount = 0\<rparr>"

definition resetLoseMemory :: "('a::len word, 's::len word) bitvector \<Rightarrow> ('a word, 's word) bitvector" where
  "resetLoseMemory bv = \<lparr>mContainer = [], mFreeBitCount = 0\<rparr>"

definition setCapacity ::
  "('a::len word, 's::len word) bitvector \<Rightarrow> 's word \<Rightarrow> ('a word, 's word) bitvector" where
  "setCapacity bv n =
     (if n = npos
      then bv\<lparr>mContainer := vector_setCapacity (mContainer bv) (npos :: 's word)\<rparr>
      else bv\<lparr>mContainer :=
             vector_setCapacity (mContainer bv) ((n + of_nat LENGTH('a) - 1) div of_nat LENGTH('a))\<rparr>)"

definition swap_bv ::
  "('a::len word, 's::len word) bitvector \<times> ('a word, 's word) bitvector
   \<Rightarrow> ('a word, 's word) bitvector \<times> ('a word, 's word) bitvector" where
  "swap_bv p = (case p of (x, y) \<Rightarrow>
     (\<lparr>mContainer = mContainer y, mFreeBitCount = mFreeBitCount y\<rparr>,
      \<lparr>mContainer = mContainer x, mFreeBitCount = mFreeBitCount x\<rparr>))"

text \<open>The constructors.\<close>

definition bitvector_default :: "('a::len word, 's::len word) bitvector" where
  "bitvector_default = \<lparr>mContainer = [], mFreeBitCount = 0\<rparr>"

definition bitvector_n :: "(nat \<Rightarrow> 'a::len word) \<Rightarrow> 's::len word \<Rightarrow> ('a word, 's word) bitvector" where
  "bitvector_n junk n =
     (let f = of_nat LENGTH('a) - (n mod of_nat LENGTH('a))
      in \<lparr>mContainer = vector_resize [] ((n + of_nat LENGTH('a) - 1) div of_nat LENGTH('a)) junk,
          mFreeBitCount = (if f = of_nat LENGTH('a) then 0 else f)\<rparr>)"

definition bitvector_n_value :: "'s::len word \<Rightarrow> bool \<Rightarrow> ('a::len word, 's word) bitvector" where
  "bitvector_n_value n v =
     (let f = of_nat LENGTH('a) - (n mod of_nat LENGTH('a))
      in \<lparr>mContainer = vector_resize_value []
                          ((n + of_nat LENGTH('a) - 1) div of_nat LENGTH('a))
                          (if v then NOT 0 else 0),
          mFreeBitCount = (if f = of_nat LENGTH('a) then 0 else f)\<rparr>)"

text \<open>\<^verbatim>\<open>assign(first, last)\<close>: the input range is the list of the booleans it yields.\<close>

fun assign_loop ::
  "(nat \<Rightarrow> 'a::len word) \<Rightarrow> ('a word, 's::len word) bitvector \<Rightarrow> bool list
   \<Rightarrow> ('a word, 's word) bitvector option" where
  "assign_loop junk bv [] = Some bv"
| "assign_loop junk bv (x # xs) =
     (case pushBack_value junk bv x of None \<Rightarrow> None | Some bv' \<Rightarrow> assign_loop junk bv' xs)"

definition assign ::
  "(nat \<Rightarrow> 'a::len word) \<Rightarrow> ('a word, 's::len word) bitvector \<Rightarrow> bool list
   \<Rightarrow> ('a word, 's word) bitvector option" where
  "assign junk bv xs = assign_loop junk (clear bv) xs"

definition bitvector_range :: "(nat \<Rightarrow> 'a::len word) \<Rightarrow> bool list \<Rightarrow> ('a word, 's::len word) bitvector option" where
  "bitvector_range junk xs = assign junk bitvector_default xs"

subsection \<open>Comparison of two sequences\<close>





subsection \<open>Reachable states and observations\<close>

text \<open>The states that the public operations produce from a constructor. Copy
  construction, \<^verbatim>\<open>operator=\<close> and \<^verbatim>\<open>swap\<close> copy or exchange whole states and add no
  state; the reverse-iterator overloads of \<^verbatim>\<open>erase\<close> call the forward ones; \<^verbatim>\<open>reserve\<close>
  changes the capacity only.\<close>

inductive reachable :: "('a::len word, 's::len word) bitvector \<Rightarrow> bool" where
  r_default: "reachable bitvector_default"
| r_n: "reachable (bitvector_n junk n)"
| r_n_value: "reachable (bitvector_n_value n v)"
| r_range: "bitvector_range junk xs = Some bv \<Longrightarrow> reachable bv"
| r_assign: "reachable bv \<Longrightarrow> assign junk bv xs = Some bv' \<Longrightarrow> reachable bv'"
| r_pushBack: "reachable bv \<Longrightarrow> reachable (pushBack junk bv)"
| r_pushBack_value: "reachable bv \<Longrightarrow> pushBack_value junk bv v = Some bv' \<Longrightarrow> reachable bv'"
| r_popBack: "reachable bv \<Longrightarrow> popBack bv = Some bv' \<Longrightarrow> reachable bv'"
| r_resize: "reachable bv \<Longrightarrow> reachable (resize junk bv n)"
| r_resize_value: "reachable bv \<Longrightarrow> resize_value junk bv n v = Some bv' \<Longrightarrow> reachable bv'"
| r_set: "reachable bv \<Longrightarrow> set_bv junk bv n v = Some bv' \<Longrightarrow> reachable bv'"
| r_insert: "reachable bv \<Longrightarrow> insert_bv asserts junk base base' bv position v = Some (bv', it)
    \<Longrightarrow> reachable bv'"
| r_insert_n: "reachable bv \<Longrightarrow> insert_n asserts junk base base' bv position n v = Some bv'
    \<Longrightarrow> reachable bv'"
| r_erase_position:
    "reachable bv \<Longrightarrow> erase_position asserts junk bv position = Some (bv', it) \<Longrightarrow> reachable bv'"
| r_erase: "reachable bv \<Longrightarrow> erase asserts junk bv first last' = Some (bv', it) \<Longrightarrow> reachable bv'"
| r_clear: "reachable bv \<Longrightarrow> reachable (clear bv)"
| r_resetLoseMemory: "reachable bv \<Longrightarrow> reachable (resetLoseMemory bv)"
| r_setCapacity: "reachable bv \<Longrightarrow> reachable (setCapacity bv n)"

text \<open>Bit \<open>i\<close> of a store, and the iterator \<^verbatim>\<open>begin() + i\<close>.\<close>

definition bit_at :: "'a::len word list \<Rightarrow> nat \<Rightarrow> bool" where
  "bit_at c i = bit (c ! (i div LENGTH('a))) (i mod LENGTH('a))"

definition iter_at :: "nat \<Rightarrow> 'a::len bitvector_reference" where
  "iter_at i = Reference (int (i div LENGTH('a))) (i mod LENGTH('a))"

text \<open>The sequence of bits that a bitvector holds: the bits of its store at the
  indices below \<^verbatim>\<open>size()\<close>.\<close>

definition bits_of :: "('a::len word, 's::len word) bitvector \<Rightarrow> bool list" where
  "bits_of bv = map (bit_at (mContainer bv)) [0 ..< unat (size_bv bv)]"

text \<open>The states whose bookkeeping is consistent and whose bit capacity is a
  non-negative \<^verbatim>\<open>difference_type\<close> value: the free bits are fewer than a word and lie
  in the last word, and \<^verbatim>\<open>mContainer.size() * kBitCount\<close> is below \<open>2 ^ (LENGTH('s) - 1)\<close>.\<close>

definition wellformed :: "('a::len word, 's::len word) bitvector \<Rightarrow> bool" where
  "wellformed bv \<longleftrightarrow>
     unat (mFreeBitCount bv) < LENGTH('a)
     \<and> (mContainer bv = [] \<longrightarrow> mFreeBitCount bv = 0)
     \<and> length (mContainer bv) * LENGTH('a) < 2 ^ (LENGTH('s) - 1)"

text \<open>The states whose bookkeeping is consistent and whose size can be rounded up to
  whole words without wrapping: \<open>size() + kBitCount - 1\<close> is a \<^verbatim>\<open>size_type\<close> value.\<close>

definition consistent :: "('a::len word, 's::len word) bitvector \<Rightarrow> bool" where
  "consistent bv \<longleftrightarrow>
     unat (mFreeBitCount bv) < LENGTH('a)
     \<and> (mContainer bv = [] \<longrightarrow> mFreeBitCount bv = 0)
     \<and> (mContainer bv \<noteq> [] \<longrightarrow>
          length (mContainer bv) * LENGTH('a) - unat (mFreeBitCount bv) + LENGTH('a) - 1
            < 2 ^ LENGTH('s))"

text \<open>The states reached when no size wraps: for every size \<open>n\<close> that an operation is
  asked for, passes to \<^verbatim>\<open>resize\<close> or reaches, \<open>n + kBitCount - 1\<close> is a \<^verbatim>\<open>size_type\<close>
  value.\<close>

inductive reachable_in_range :: "('a::len word, 's::len word) bitvector \<Rightarrow> bool" where
  b_default: "reachable_in_range bitvector_default"
| b_n: "unat n + LENGTH('a) - 1 < 2 ^ LENGTH('s)
    \<Longrightarrow> reachable_in_range (bitvector_n junk n :: ('a word, 's word) bitvector)"
| b_n_value: "unat n + LENGTH('a) - 1 < 2 ^ LENGTH('s)
    \<Longrightarrow> reachable_in_range (bitvector_n_value n v :: ('a word, 's word) bitvector)"
| b_range: "length xs + LENGTH('a) - 1 < 2 ^ LENGTH('s)
    \<Longrightarrow> bitvector_range junk xs = Some (bv :: ('a word, 's word) bitvector)
    \<Longrightarrow> reachable_in_range bv"
| b_assign: "reachable_in_range bv \<Longrightarrow> length xs + LENGTH('a) - 1 < 2 ^ LENGTH('s)
    \<Longrightarrow> assign junk bv xs = Some bv' \<Longrightarrow> reachable_in_range bv'"
| b_pushBack: "reachable_in_range bv
    \<Longrightarrow> unat (size_bv bv) + 1 + LENGTH('a) - 1 < 2 ^ LENGTH('s)
    \<Longrightarrow> reachable_in_range (pushBack junk bv)"
| b_pushBack_value: "reachable_in_range bv
    \<Longrightarrow> unat (size_bv bv) + 1 + LENGTH('a) - 1 < 2 ^ LENGTH('s)
    \<Longrightarrow> pushBack_value junk bv v = Some bv' \<Longrightarrow> reachable_in_range bv'"
| b_popBack: "reachable_in_range bv \<Longrightarrow> popBack bv = Some bv' \<Longrightarrow> reachable_in_range bv'"
| b_resize: "reachable_in_range bv \<Longrightarrow> unat n + LENGTH('a) - 1 < 2 ^ LENGTH('s)
    \<Longrightarrow> reachable_in_range (resize junk bv n)"
| b_resize_value: "reachable_in_range bv \<Longrightarrow> unat n + LENGTH('a) - 1 < 2 ^ LENGTH('s)
    \<Longrightarrow> resize_value junk bv n v = Some bv' \<Longrightarrow> reachable_in_range bv'"
| b_set: "reachable_in_range bv
    \<Longrightarrow> n < size_bv bv \<or> unat n + 1 + LENGTH('a) - 1 < 2 ^ LENGTH('s)
    \<Longrightarrow> set_bv junk bv n v = Some bv' \<Longrightarrow> reachable_in_range bv'"
| b_insert: "reachable_in_range bv
    \<Longrightarrow> unat (size_bv bv) + 1 + LENGTH('a) - 1 < 2 ^ LENGTH('s)
    \<Longrightarrow> insert_bv asserts junk base base' bv position v = Some (bv', it)
    \<Longrightarrow> reachable_in_range bv'"
| b_insert_n: "reachable_in_range bv
    \<Longrightarrow> unat (size_bv bv) + unat n + LENGTH('a) - 1 < 2 ^ LENGTH('s)
    \<Longrightarrow> insert_n asserts junk base base' bv position n v = Some bv' \<Longrightarrow> reachable_in_range bv'"
| b_erase_position: "reachable_in_range bv
    \<Longrightarrow> unat (size_bv bv - 1) + LENGTH('a) - 1 < 2 ^ LENGTH('s)
    \<Longrightarrow> erase_position asserts junk bv position = Some (bv', it) \<Longrightarrow> reachable_in_range bv'"
| b_erase: "reachable_in_range bv
    \<Longrightarrow> iter_eq first last'
        \<or> unat (size_bv bv - word_of_int (iter_diff last' first)) + LENGTH('a) - 1 < 2 ^ LENGTH('s)
    \<Longrightarrow> erase asserts junk bv first last' = Some (bv', it) \<Longrightarrow> reachable_in_range bv'"
| b_clear: "reachable_in_range bv \<Longrightarrow> reachable_in_range (clear bv)"
| b_resetLoseMemory: "reachable_in_range bv \<Longrightarrow> reachable_in_range (resetLoseMemory bv)"
| b_setCapacity: "reachable_in_range bv \<Longrightarrow> reachable_in_range (setCapacity bv n)"

section \<open>Iterator arithmetic\<close>

lemma backwards_div:
  fixes n :: int and k :: nat
  assumes "0 < k" "n < 0"
  shows "int (nat (- n + int k - 1) div k) = - (n div int k)"
    and "int ((k - 1) - nat (- n + int k - 1) mod k) = n mod int k"
proof -
  define q where "q = n div int k"
  define r where "r = n mod int k"
  have n: "n = q * int k + r" by (simp add: q_def r_def)
  have r: "0 \<le> r" "r < int k" using assms by (simp_all add: r_def)
  have b: "- n + int k - 1 = (- q) * int k + (int k - 1 - r)" by (simp add: n algebra_simps)
  have pos: "0 \<le> - n + int k - 1" using assms by simp
  have d: "(- n + int k - 1) div int k = - q"
    by (rule int_div_pos_eq[where r = "int k - 1 - r"]) (use r b in \<open>simp_all add: algebra_simps\<close>)
  have m: "(- n + int k - 1) mod int k = int k - 1 - r"
    by (rule int_mod_pos_eq[where q = "- q"]) (use r b in \<open>simp_all add: algebra_simps\<close>)
  show "int (nat (- n + int k - 1) div k) = - (n div int k)"
    using d pos by (simp add: q_def zdiv_int nat_div_distrib)
  have e: "int (nat (- n + int k - 1) mod k) = int k - 1 - r"
    using m pos by (simp add: zmod_int nat_mod_distrib)
  have "nat (- n + int k - 1) mod k \<le> k - 1"
    using assms(1) by (simp add: less_Suc_eq_le[symmetric])
  then have "int ((k - 1) - nat (- n + int k - 1) mod k) = int (k - 1) - int (nat (- n + int k - 1) mod k)"
    by (rule of_nat_diff)
  also have "\<dots> = r" using e assms(1) by (simp add: of_nat_diff)
  finally show "int ((k - 1) - nat (- n + int k - 1) mod k) = n mod int k"
    by (simp add: r_def)
qed

lemma iter_add_floor:
  fixes a :: "'a::len bitvector_reference"
  shows "mpBitWord (iter_add a n) = mpBitWord a + (n + int (mnBitIndex a)) div int LENGTH('a)"
    and "int (mnBitIndex (iter_add a n)) = (n + int (mnBitIndex a)) mod int LENGTH('a)"
  using backwards_div[of "LENGTH('a)" "n + int (mnBitIndex a)"]
  by (auto simp: iter_add_def Let_def)

lemma ref_eqI:
  "mpBitWord a = mpBitWord b \<Longrightarrow> mnBitIndex a = mnBitIndex b \<Longrightarrow> a = b"
  by (cases a; cases b) simp

lemma iter_add_diff:
  fixes a b :: "'a::len bitvector_reference"
  assumes "canonical b"
  shows "iter_add a (iter_diff b a) = b"
proof (rule ref_eqI)
  have k: "0 < int LENGTH('a)" by simp
  have s: "iter_diff b a + int (mnBitIndex a)
        = (mpBitWord b - mpBitWord a) * int LENGTH('a) + int (mnBitIndex b)"
    by (simp add: iter_diff_def)
  have o: "0 \<le> int (mnBitIndex b)" "int (mnBitIndex b) < int LENGTH('a)"
    using assms by (simp_all add: canonical_def)
  have d: "(iter_diff b a + int (mnBitIndex a)) div int LENGTH('a) = mpBitWord b - mpBitWord a"
    by (rule int_div_pos_eq[where r = "int (mnBitIndex b)"]) (use s o in \<open>simp_all add: algebra_simps\<close>)
  have m: "(iter_diff b a + int (mnBitIndex a)) mod int LENGTH('a) = int (mnBitIndex b)"
    by (rule int_mod_pos_eq[where q = "mpBitWord b - mpBitWord a"]) (use s o in \<open>simp_all add: algebra_simps\<close>)
  show "mpBitWord (iter_add a (iter_diff b a)) = mpBitWord b"
    by (simp add: iter_add_floor(1) d)
  have "int (mnBitIndex (iter_add a (iter_diff b a))) = int (mnBitIndex b)"
    by (simp add: iter_add_floor(2) m)
  then show "mnBitIndex (iter_add a (iter_diff b a)) = mnBitIndex b" by simp
qed





subsection \<open>Indices and iterators\<close>

lemma div_mod_unique_nat:
  fixes k :: nat
  assumes "r < k"
  shows "(q * k + r) div k = q" and "(q * k + r) mod k = r"
  using assms by simp_all

lemma iter_at_canonical: "canonical (iter_at i :: 'a::len bitvector_reference)"
  by (simp add: iter_at_def canonical_def)

lemma iter_at_inject:
  "(iter_at i :: 'a::len bitvector_reference) = iter_at j \<longleftrightarrow> i = j"
proof
  assume "(iter_at i :: 'a bitvector_reference) = iter_at j"
  then have "i div LENGTH('a) = j div LENGTH('a)" "i mod LENGTH('a) = j mod LENGTH('a)"
    by (simp_all add: iter_at_def)
  then show "i = j" by (metis div_mult_mod_eq)
qed simp


lemma iter_diff_at:
  "iter_diff (iter_at j :: 'a::len bitvector_reference) (iter_at i) = int j - int i"
proof -
  have "int j = int (j div LENGTH('a)) * int LENGTH('a) + int (j mod LENGTH('a))"
    by (metis div_mult_mod_eq of_nat_add of_nat_mult)
  moreover have "int i = int (i div LENGTH('a)) * int LENGTH('a) + int (i mod LENGTH('a))"
    by (metis div_mult_mod_eq of_nat_add of_nat_mult)
  ultimately show ?thesis
    by (simp add: iter_diff_def iter_at_def algebra_simps)
qed

lemma iter_add_at:
  assumes "0 \<le> int i + d"
  shows "iter_add (iter_at i :: 'a::len bitvector_reference) d = iter_at (nat (int i + d))"
proof -
  have "iter_add (iter_at i :: 'a bitvector_reference)
          (iter_diff (iter_at (nat (int i + d)) :: 'a bitvector_reference) (iter_at i))
        = iter_at (nat (int i + d))"
    by (rule iter_add_diff) (rule iter_at_canonical)
  then show ?thesis using assms by (simp add: iter_diff_at)
qed

lemma iter_inc_canonical:
  fixes a :: "'a::len bitvector_reference"
  assumes "canonical a"
  shows "iter_inc a = iter_add a 1"
proof -
  let ?k = "int LENGTH('a)"
  let ?n = "1 + int (mnBitIndex a)"
  have o: "int (mnBitIndex a) < ?k" using assms by (simp add: canonical_def)
  show ?thesis
  proof (cases "mnBitIndex a + 1 = LENGTH('a)")
    case True
    then have e: "?n = ?k" by linarith
    have d: "?n div ?k = 1" and m: "?n mod ?k = 0" unfolding e by simp_all
    have "iter_add a 1 = Reference (mpBitWord a + 1) 0"
      unfolding iter_add_def Let_def d m by simp
    then show ?thesis using True by (simp add: iter_inc_def)
  next
    case False
    then have l: "?n < ?k" using o by linarith
    have d: "?n div ?k = 0" and m: "?n mod ?k = ?n" using l by simp_all
    have "iter_add a 1 = Reference (mpBitWord a) (mnBitIndex a + 1)"
      unfolding iter_add_def Let_def d m by (simp add: nat_add_distrib)
    then show ?thesis using False by (simp add: iter_inc_def)
  qed
qed

lemma iter_dec_canonical:
  fixes a :: "'a::len bitvector_reference"
  assumes "canonical a"
  shows "iter_dec a = iter_add a (- 1)"
proof (cases "mnBitIndex a = 0")
  case True
  then show ?thesis by (simp add: iter_dec_def iter_add_def Let_def)
next
  case False
  then have p: "0 \<le> - 1 + int (mnBitIndex a)" by simp
  have l: "- 1 + int (mnBitIndex a) < int LENGTH('a)"
    using assms by (simp add: canonical_def)
  have "nat (int (mnBitIndex a) - 1) = mnBitIndex a - 1" by simp
  then show ?thesis
    using False p l by (cases a) (simp add: iter_dec_def iter_add_def Let_def)
qed

lemma iter_inc_at: "iter_inc (iter_at i :: 'a::len bitvector_reference) = iter_at (Suc i)"
  using iter_add_at[of i 1, where 'a = 'a]
  by (simp add: iter_inc_canonical iter_at_canonical nat_add_distrib)

lemma iter_dec_at: "iter_dec (iter_at (Suc i) :: 'a::len bitvector_reference) = iter_at i"
  using iter_add_at[of "Suc i" "- 1", where 'a = 'a]
  by (simp add: iter_dec_canonical iter_at_canonical)

lemma iter_le_at:
  "iter_le (iter_at i :: 'a::len bitvector_reference) (iter_at j) \<longleftrightarrow> i \<le> j"
proof -
  let ?k = "LENGTH('a)"
  have i: "i = i div ?k * ?k + i mod ?k" and j: "j = j div ?k * ?k + j mod ?k" by simp_all
  show ?thesis
  proof (cases "i div ?k = j div ?k")
    case True
    then show ?thesis
      by (metis (no_types, lifting) i j iter_at_def iter_le_def add_le_cancel_left
          bitvector_reference.sel(1) bitvector_reference.sel(2) order_less_irrefl)
  next
    case False
    show ?thesis
    proof (cases "i div ?k < j div ?k")
      case True
      then have "i < j" by (meson div_le_mono leD leI)
      then show ?thesis using True by (simp add: iter_le_def iter_at_def)
    next
      case F: False
      then have "j div ?k < i div ?k" using False by simp
      then have "j < i" by (meson div_le_mono leD leI)
      then show ?thesis using F False by (simp add: iter_le_def iter_at_def)
    qed
  qed
qed

lemma iter_at_of_canonical:
  fixes a :: "'a::len bitvector_reference"
  assumes "canonical a" "0 \<le> mpBitWord a"
  shows "a = iter_at (nat (mpBitWord a) * LENGTH('a) + mnBitIndex a)"
  using assms by (cases a) (simp add: iter_at_def canonical_def)

subsection \<open>Reading and writing one bit\<close>

lemma ref_bool_at:
  fixes c :: "'a::len word list"
  assumes "i < length c * LENGTH('a)"
  shows "ref_bool (store c) (iter_at i) = Some (bit_at c i)"
proof -
  have "i div LENGTH('a) < length c"
    using assms by (simp add: less_mult_imp_div_less)
  then show ?thesis
    by (simp add: ref_bool_def store_def iter_at_def bit_at_def bit_iff_and_push_bit_not_eq_0)
qed

lemma ref_bool_outside:
  fixes c :: "'a::len word list"
  assumes "length c * LENGTH('a) \<le> i"
  shows "ref_bool (store c) (iter_at i) = None"
proof -
  have "length c \<le> i div LENGTH('a)"
    using assms by (metis div_le_mono div_mult_self_is_m len_gt_0)
  then show ?thesis
    by (simp add: ref_bool_def store_def iter_at_def)
qed

lemma bit_assign:
  fixes w :: "'a::len word"
  assumes "n < LENGTH('a)"
  shows "bit (if v then w OR push_bit n 1 else w AND NOT (push_bit n 1)) m
         \<longleftrightarrow> (if m = n then v else bit w m)"
  using assms by (auto simp: bit_simps dest: bit_imp_le_length)

lemma ref_assign_at:
  fixes c :: "'a::len word list"
  assumes "i < length c * LENGTH('a)"
  shows "\<exists>c'. ref_assign c (iter_at i) v = Some c' \<and> length c' = length c
           \<and> (\<forall>j. bit_at c' j = (if j = i then v else bit_at c j))"
proof -
  let ?k = "LENGTH('a)"
  let ?w = "c ! (i div ?k)"
  let ?c = "c[i div ?k := (if v then ?w OR push_bit (i mod ?k) 1 else ?w AND NOT (push_bit (i mod ?k) 1))]"
  have d: "i div ?k < length c"
    using assms by (simp add: less_mult_imp_div_less)
  have 1: "ref_assign c (iter_at i) v = Some ?c"
    using d by (simp add: ref_assign_def store_def iter_at_def Let_def)
  have 2: "bit_at ?c j = (if j = i then v else bit_at c j)" for j
  proof (cases "j div ?k = i div ?k")
    case True
    have "j = i \<longleftrightarrow> j mod ?k = i mod ?k"
      using True by (metis div_mult_mod_eq)
    then show ?thesis
      using True d by (simp add: bit_at_def bit_assign)
  next
    case False
    then have "j \<noteq> i" by auto
    then show ?thesis using False by (simp add: bit_at_def)
  qed
  show ?thesis using 1 2 by simp
qed

lemma ref_assign_outside:
  fixes c :: "'a::len word list"
  assumes "length c * LENGTH('a) \<le> i"
  shows "ref_assign c (iter_at i) v = None"
proof -
  have "length c \<le> i div LENGTH('a)"
    using assms by (metis div_le_mono div_mult_self_is_m len_gt_0)
  then show ?thesis
    by (simp add: ref_assign_def store_def iter_at_def)
qed

section \<open>Iterator validation\<close>

text \<open>
  Claim C4. \<^verbatim>\<open>validate\<close>, called through \<^verbatim>\<open>validateIterator\<close>, is to classify an iterator
  from its coordinates alone, the end position being valid and not dereferenceable.
  The code does not: on a sequence of 32 bits that fill one word, \<^verbatim>\<open>end()\<close> is word 1,
  offset 0, no free bits, and the test \<^verbatim>\<open>pCurrent == pEnd && mReference\<close> reads bit 0 of
  the word behind the store. The end position is classified invalid when that bit is
  clear, valid and current when it is set, and the read has no defined result when no
  memory is mapped there.
\<close>

theorem validate_end_depends_on_memory:
  "size_bv (bitvector_n_value 32 True :: (32 word, 64 word) bitvector) = 32
   \<and> end_bv (bitvector_n_value 32 True :: (32 word, 64 word) bitvector) = Reference 1 0
   \<and> validateIterator (bitvector_n_value 32 True :: (32 word, 64 word) bitvector) (Some 0)
         (end_bv (bitvector_n_value 32 True :: (32 word, 64 word) bitvector)) = Some isf_none
   \<and> validateIterator (bitvector_n_value 32 True :: (32 word, 64 word) bitvector) (Some 1)
         (end_bv (bitvector_n_value 32 True :: (32 word, 64 word) bitvector))
       = Some (isf_valid OR isf_current)
   \<and> validateIterator (bitvector_n_value 32 True :: (32 word, 64 word) bitvector) None
         (end_bv (bitvector_n_value 32 True :: (32 word, 64 word) bitvector)) = None"
  by code_simp

section \<open>Moving a range of bits\<close>

lemma MoveBits_forward_at:
  fixes c :: "'a::len word list"
  assumes "d \<le> s" "s + n \<le> length c * LENGTH('a)"
  shows "\<exists>c'. MoveBits_forward c (iter_at s) (iter_at (s + n)) (iter_at d) = Some c'
           \<and> length c' = length c
           \<and> (\<forall>j. bit_at c' j = (if d \<le> j \<and> j < d + n then bit_at c (j - d + s) else bit_at c j))"
  using assms
proof (induction n arbitrary: c s d)
  case 0
  then show ?case by (subst MoveBits_forward.simps) auto
next
  case (Suc n)
  have s: "s < length c * LENGTH('a)" and d: "d < length c * LENGTH('a)"
    using Suc.prems by simp_all
  obtain c1 where c1: "ref_assign c (iter_at d) (bit_at c s) = Some c1" "length c1 = length c"
    and b1: "\<And>j. bit_at c1 j = (if j = d then bit_at c s else bit_at c j)"
    using ref_assign_at[OF d, of "bit_at c s"] by blast
  have "Suc d \<le> Suc s" "Suc s + n \<le> length c1 * LENGTH('a)"
    using Suc.prems c1 by simp_all
  from Suc.IH[OF this] obtain c2 where
    c2: "MoveBits_forward c1 (iter_at (Suc s)) (iter_at (Suc s + n)) (iter_at (Suc d)) = Some c2"
      "length c2 = length c1"
    and b2: "\<And>j. bit_at c2 j
               = (if Suc d \<le> j \<and> j < Suc d + n then bit_at c1 (j - Suc d + Suc s) else bit_at c1 j)"
    by blast
  have ne: "(iter_at s :: 'a bitvector_reference) \<noteq> iter_at (s + Suc n)"
    by (simp add: iter_at_inject)
  have run: "MoveBits_forward c (iter_at s) (iter_at (s + Suc n)) (iter_at d) = Some c2"
    by (subst MoveBits_forward.simps) (use ne c1 c2 in \<open>simp add: ref_bool_at[OF s] iter_inc_at\<close>)
  have "bit_at c2 j = (if d \<le> j \<and> j < d + Suc n then bit_at c (j - d + s) else bit_at c j)" for j
  proof (cases "Suc d \<le> j \<and> j < Suc d + n")
    case True
    then have i: "j - Suc d + Suc s = j - d + s" "j - Suc d + Suc s \<noteq> d"
      using Suc.prems(1) by linarith+
    have "bit_at c2 j = bit_at c1 (j - Suc d + Suc s)" using True by (simp only: b2 if_True simp_thms)
    also have "\<dots> = bit_at c (j - Suc d + Suc s)" using i(2) by (simp only: b1 if_False)
    also have "\<dots> = bit_at c (j - d + s)" by (simp only: i(1))
    finally show ?thesis using True by simp
  next
    case False
    then have e: "bit_at c2 j = bit_at c1 j" by (simp only: b2 if_False)
    show ?thesis
    proof (cases "j = d")
      case True
      then show ?thesis using e b1[of j] by simp
    next
      case F: False
      then have "\<not> (d \<le> j \<and> j < d + Suc n)" using False by linarith
      then show ?thesis using F by (simp only: e b1 if_False)
    qed
  qed
  then show ?case using run c2 c1 by simp
qed

lemma MoveBits_backward_at:
  fixes c :: "'a::len word list"
  assumes "s \<le> d" "d + n \<le> length c * LENGTH('a)"
  shows "\<exists>c'. MoveBits_backward c (iter_at s) (iter_at (s + n)) (iter_at (d + n)) = Some c'
           \<and> length c' = length c
           \<and> (\<forall>j. bit_at c' j = (if d \<le> j \<and> j < d + n then bit_at c (j - d + s) else bit_at c j))"
  using assms
proof (induction n arbitrary: c)
  case 0
  then show ?case by (subst MoveBits_backward.simps) auto
next
  case (Suc n)
  have s: "s + n < length c * LENGTH('a)" and d: "d + n < length c * LENGTH('a)"
    using Suc.prems by simp_all
  obtain c1 where c1: "ref_assign c (iter_at (d + n)) (bit_at c (s + n)) = Some c1" "length c1 = length c"
    and b1: "\<And>j. bit_at c1 j = (if j = d + n then bit_at c (s + n) else bit_at c j)"
    using ref_assign_at[OF d, of "bit_at c (s + n)"] by blast
  have "s \<le> d" "d + n \<le> length c1 * LENGTH('a)"
    using Suc.prems c1 by simp_all
  from Suc.IH[OF this] obtain c2 where
    c2: "MoveBits_backward c1 (iter_at s) (iter_at (s + n)) (iter_at (d + n)) = Some c2"
      "length c2 = length c1"
    and b2: "\<And>j. bit_at c2 j
               = (if d \<le> j \<and> j < d + n then bit_at c1 (j - d + s) else bit_at c1 j)"
    by blast
  have ne: "(iter_at s :: 'a bitvector_reference) \<noteq> iter_at (s + Suc n)"
    by (simp add: iter_at_inject)
  have run: "MoveBits_backward c (iter_at s) (iter_at (s + Suc n)) (iter_at (d + Suc n)) = Some c2"
    by (subst MoveBits_backward.simps) (use ne c1 c2 in \<open>simp add: ref_bool_at[OF s] iter_dec_at\<close>)
  have "bit_at c2 j = (if d \<le> j \<and> j < d + Suc n then bit_at c (j - d + s) else bit_at c j)" for j
  proof (cases "d \<le> j \<and> j < d + n")
    case True
    then have i: "j - d + s \<noteq> d + n"
      using Suc.prems(1) by linarith
    have "bit_at c2 j = bit_at c1 (j - d + s)" using True by (simp only: b2 if_True simp_thms)
    also have "\<dots> = bit_at c (j - d + s)" using i by (simp only: b1 if_False)
    finally show ?thesis using True by simp
  next
    case False
    then have e: "bit_at c2 j = bit_at c1 j" by (simp only: b2 if_False)
    show ?thesis
    proof (cases "j = d + n")
      case True
      then have "j - d + s = s + n" by simp
      then show ?thesis using True e b1[of j] by (simp add: add.commute)
    next
      case F: False
      then have "\<not> (d \<le> j \<and> j < d + Suc n)" using False by linarith
      then show ?thesis using F by (simp only: e b1 if_False)
    qed
  qed
  then show ?case using run c2 c1 by simp
qed

lemma MoveBits_at:
  fixes c :: "'a::len word list"
  assumes "s + n \<le> length c * LENGTH('a)" "d + n \<le> length c * LENGTH('a)"
  shows "\<exists>c'. MoveBits c (iter_at s) (iter_at (s + n)) (iter_at d) = Some c'
           \<and> length c' = length c
           \<and> (\<forall>j. bit_at c' j = (if d \<le> j \<and> j < d + n then bit_at c (j - d + s) else bit_at c j))"
proof (cases "d \<le> s")
  case True
  then show ?thesis
    using MoveBits_forward_at[OF True assms(1)] by (simp add: MoveBits_def iter_le_at)
next
  case False
  then have "s \<le> d" by simp
  have e: "nat (int d + int n) = d + n" by simp
  have "iter_add (iter_at d :: 'a bitvector_reference)
          (iter_diff (iter_at (s + n) :: 'a bitvector_reference) (iter_at s)) = iter_at (d + n)"
    by (simp add: iter_diff_at iter_add_at e)
  with MoveBits_backward_at[OF \<open>s \<le> d\<close> assms(2)] show ?thesis
    using False by (simp add: MoveBits_def iter_le_at)
qed

section \<open>Sizes, ends and single bits of a well-formed sequence\<close>

subsection \<open>Sizes as natural numbers\<close>

lemma unat_of_nat_small:
  "n < 2 ^ LENGTH('s) \<Longrightarrow> unat (of_nat n :: 's::len word) = n"
  by (simp add: unat_of_nat)

lemma sint_small:
  fixes w :: "'s::len word"
  assumes "unat w < 2 ^ (LENGTH('s) - 1)"
  shows "sint w = int (unat w)"
proof -
  have "int (unat w) < int (2 ^ (LENGTH('s) - 1))"
    using assms by (simp only: of_nat_less_iff)
  then have "uint w < 2 ^ (LENGTH('s) - 1)"
    by (simp only: uint_nat of_nat_power of_nat_numeral)
  moreover have "- (2 ^ (LENGTH('s) - 1)) \<le> uint w"
    by (rule order_trans[of _ 0]) simp_all
  ultimately have "signed_take_bit (LENGTH('s) - 1) (uint w) = uint w"
    by (rule signed_take_bit_int_eq_self[rotated])
  then have "sint w = uint w" by (simp add: sint_uint)
  also have "\<dots> = int (unat w)" by (rule uint_nat)
  finally show ?thesis .
qed

lemma half_range: "(2::nat) ^ (LENGTH('s::len) - 1) < 2 ^ LENGTH('s)"
  by simp

lemma below_half:
  "(n::nat) < 2 ^ (LENGTH('s::len) - 1) \<Longrightarrow> n < 2 ^ LENGTH('s)"
  using half_range[where 's = 's] by linarith

lemma sint_of_nat_small:
  assumes "n < 2 ^ (LENGTH('s::len) - 1)"
  shows "sint (of_nat n :: 's word) = int n"
proof -
  have "unat (of_nat n :: 's word) = n"
    using assms by (simp add: unat_of_nat_small below_half)
  then show ?thesis using assms sint_small[of "of_nat n :: 's word"] by simp
qed

lemma wellformed_kbound:
  fixes bv :: "('a::len word, 's::len word) bitvector"
  assumes "wellformed bv" "mContainer bv \<noteq> []"
  shows "LENGTH('a) < 2 ^ (LENGTH('s) - 1)"
proof -
  have "1 \<le> length (mContainer bv)" using assms(2) by (cases "mContainer bv") simp_all
  then have "LENGTH('a) \<le> length (mContainer bv) * LENGTH('a)" by simp
  moreover have "length (mContainer bv) * LENGTH('a) < 2 ^ (LENGTH('s) - 1)"
    using assms(1) by (simp add: wellformed_def)
  ultimately show ?thesis by (rule order_le_less_trans)
qed

lemma wellformed_free_le:
  fixes bv :: "('a::len word, 's::len word) bitvector"
  assumes "wellformed bv"
  shows "unat (mFreeBitCount bv) \<le> length (mContainer bv) * LENGTH('a)"
proof (cases "mContainer bv = []")
  case True
  then show ?thesis using assms by (simp add: wellformed_def)
next
  case False
  then have "1 \<le> length (mContainer bv)" by (cases "mContainer bv") simp_all
  then have "LENGTH('a) \<le> length (mContainer bv) * LENGTH('a)" by simp
  moreover have "unat (mFreeBitCount bv) < LENGTH('a)"
    using assms by (simp add: wellformed_def)
  ultimately show ?thesis by linarith
qed

lemma size_bv_unat:
  fixes bv :: "('a::len word, 's::len word) bitvector"
  assumes "wellformed bv"
  shows "unat (size_bv bv) = length (mContainer bv) * LENGTH('a) - unat (mFreeBitCount bv)"
proof -
  let ?cap = "length (mContainer bv) * LENGTH('a)"
  have cap: "?cap < 2 ^ LENGTH('s)"
    using assms by (simp add: wellformed_def below_half)
  have e: "(vector_size (mContainer bv) * of_nat LENGTH('a) :: 's word) = of_nat ?cap"
    by (simp add: vector_size_def)
  have u: "unat (of_nat ?cap :: 's word) = ?cap"
    using cap by (rule unat_of_nat_small)
  have "mFreeBitCount bv \<le> of_nat ?cap"
    using wellformed_free_le[OF assms] u by (simp add: word_le_nat_alt)
  then have "unat (of_nat ?cap - mFreeBitCount bv) = ?cap - unat (mFreeBitCount bv)"
    using u by (simp add: unat_sub)
  then show ?thesis by (simp add: size_bv_def e)
qed

lemma size_bv_le_capacity:
  fixes bv :: "('a::len word, 's::len word) bitvector"
  assumes "wellformed bv"
  shows "unat (size_bv bv) \<le> length (mContainer bv) * LENGTH('a)"
  by (simp add: size_bv_unat[OF assms])

lemma size_bv_half:
  fixes bv :: "('a::len word, 's::len word) bitvector"
  assumes "wellformed bv"
  shows "unat (size_bv bv) < 2 ^ (LENGTH('s) - 1)"
  using size_bv_le_capacity[OF assms] assms by (simp add: wellformed_def)

lemma nat_int_minus: "b \<le> a \<Longrightarrow> nat (int a + - int b) = a - b"
  by simp

lemma Reference_word_start:
  "(Reference (int n) 0 :: 'a::len bitvector_reference) = iter_at (n * LENGTH('a))"
  by (simp add: iter_at_def)

lemma begin_bv_at: "begin_bv bv = iter_at 0"
  by (simp add: begin_bv_def iter_at_def)

lemma end_bv_at:
  fixes bv :: "('a::len word, 's::len word) bitvector"
  assumes "wellformed bv"
  shows "end_bv bv = iter_at (unat (size_bv bv))"
proof -
  let ?cap = "length (mContainer bv) * LENGTH('a)"
  let ?f = "unat (mFreeBitCount bv)"
  have f: "?f < 2 ^ (LENGTH('s) - 1)"
  proof (cases "mContainer bv = []")
    case True
    then show ?thesis using assms by (simp add: wellformed_def)
  next
    case False
    then show ?thesis
      using wellformed_kbound[OF assms False] assms by (simp add: wellformed_def)
  qed
  have s: "sint (mFreeBitCount bv) = int ?f" using f by (rule sint_small)
  have le: "?f \<le> ?cap" by (rule wellformed_free_le[OF assms])
  then have n: "nat (int ?cap + - int ?f) = ?cap - ?f" by (rule nat_int_minus)
  have p: "0 \<le> int ?cap + - int ?f" using le by linarith
  have "end_bv bv = iter_add (iter_at ?cap) (- int ?f)"
    by (simp add: end_bv_def iter_sub_def s Reference_word_start)
  also have "\<dots> = iter_at (nat (int ?cap + - int ?f))"
    by (rule iter_add_at[OF p])
  also have "\<dots> = iter_at (?cap - ?f)"
    by (simp only: n)
  finally show ?thesis by (simp add: size_bv_unat[OF assms])
qed

lemma index_const_at:
  fixes bv :: "('a::len word, 's::len word) bitvector"
  assumes "wellformed bv" "i < unat (size_bv bv)"
  shows "index_const bv (of_nat i) = Some (bit_at (mContainer bv) i)"
proof -
  have h: "i < 2 ^ (LENGTH('s) - 1)" using size_bv_half[OF assms(1)] assms(2) by simp
  have c: "i < length (mContainer bv) * LENGTH('a)"
    using size_bv_le_capacity[OF assms(1)] assms(2) by simp
  have "iter_add (begin_bv bv) (sint (of_nat i :: 's word)) = iter_at i"
    by (simp add: begin_bv_at sint_of_nat_small[OF h] iter_add_at)
  then show ?thesis by (simp add: index_const_def ref_bool_at[OF c])
qed

lemma length_bits_of: "length (bits_of bv) = unat (size_bv bv)"
  by (simp add: bits_of_def)

lemma nth_bits_of:
  "i < unat (size_bv bv) \<Longrightarrow> bits_of bv ! i = bit_at (mContainer bv) i"
  by (simp add: bits_of_def)

section \<open>Growing and shrinking at the tail\<close>

subsection \<open>pushBack and popBack\<close>

lemma bit_at_append:
  fixes c :: "'a::len word list"
  assumes "j < length c * LENGTH('a)"
  shows "bit_at (c @ d) j = bit_at c j"
proof -
  have "j div LENGTH('a) < length c"
    using assms by (simp add: less_mult_imp_div_less)
  then show ?thesis by (simp add: bit_at_def nth_append)
qed

lemma bit_at_take:
  fixes c :: "'a::len word list"
  assumes "j < m * LENGTH('a)"
  shows "bit_at (take m c) j = bit_at c j"
proof -
  have "j div LENGTH('a) < m"
    using assms by (simp add: less_mult_imp_div_less)
  then show ?thesis by (simp add: bit_at_def)
qed

lemma unat_of_nat_K_minus_1:
  assumes "LENGTH('a::len) < 2 ^ LENGTH('s::len)"
  shows "unat (of_nat LENGTH('a) - 1 :: 's word) = LENGTH('a) - 1"
proof -
  have "(of_nat (LENGTH('a) - 1) :: 's word) = of_nat LENGTH('a) - of_nat 1"
    by (rule of_nat_diff) (simp add: Suc_leI)
  then have "(of_nat LENGTH('a) - 1 :: 's word) = of_nat (LENGTH('a) - 1)" by simp
  moreover have "LENGTH('a) - 1 < 2 ^ LENGTH('s)" using assms by linarith
  ultimately show ?thesis by (simp only: unat_of_nat_small)
qed

lemma unat_pred:
  fixes w :: "'s::len word"
  shows "w \<noteq> 0 \<Longrightarrow> unat (w - 1) = unat w - 1"
  by (simp add: unat_minus_one)

lemma pushBack_free:
  fixes bv :: "('a::len word, 's::len word) bitvector"
  assumes "mFreeBitCount bv \<noteq> 0"
  shows "pushBack junk bv = bv\<lparr>mFreeBitCount := mFreeBitCount bv - 1\<rparr>"
  using assms by (simp add: pushBack_def)

lemma pushBack_grow:
  fixes bv :: "('a::len word, 's::len word) bitvector"
  assumes "mFreeBitCount bv = 0"
  shows "pushBack junk bv
         = \<lparr>mContainer = mContainer bv @ [junk (length (mContainer bv))],
            mFreeBitCount = of_nat LENGTH('a) - 1\<rparr>"
  using assms by (simp add: pushBack_def vector_pushBack_def)

lemma pushBack_wellformed:
  fixes bv :: "('a::len word, 's::len word) bitvector"
  assumes "wellformed bv"
    and "mFreeBitCount bv = 0 \<longrightarrow> (length (mContainer bv) + 1) * LENGTH('a) < 2 ^ (LENGTH('s) - 1)"
  shows "wellformed (pushBack junk bv)"
    and "unat (size_bv (pushBack junk bv)) = unat (size_bv bv) + 1"
    and "length (mContainer (pushBack junk bv)) * LENGTH('a)
         = (if mFreeBitCount bv = 0 then length (mContainer bv) * LENGTH('a) + LENGTH('a)
            else length (mContainer bv) * LENGTH('a))"
    and "\<And>j. j < length (mContainer bv) * LENGTH('a)
           \<Longrightarrow> bit_at (mContainer (pushBack junk bv)) j = bit_at (mContainer bv) j"
proof -
  let ?k = "LENGTH('a)"
  let ?c = "mContainer bv"
  show w: "wellformed (pushBack junk bv)"
  proof (cases "mFreeBitCount bv = 0")
    case True
    have "?k \<le> (length ?c + 1) * ?k" by simp
    also have "\<dots> < 2 ^ (LENGTH('s) - 1)" using assms(2) True by simp
    finally have "?k < 2 ^ LENGTH('s)" by (rule below_half)
    then have "unat (of_nat ?k - 1 :: 's word) = ?k - 1" by (rule unat_of_nat_K_minus_1)
    then show ?thesis
      using assms(2) True by (simp add: pushBack_grow wellformed_def)
  next
    case False
    have u: "unat (mFreeBitCount bv - 1) = unat (mFreeBitCount bv) - 1"
      using False by (rule unat_pred)
    have ne: "mContainer bv \<noteq> []" using assms(1) False by (auto simp: wellformed_def)
    have f: "unat (mFreeBitCount bv) < ?k" using assms(1) by (simp add: wellformed_def)
    have c: "length ?c * ?k < 2 ^ (LENGTH('s) - 1)" using assms(1) by (simp add: wellformed_def)
    have "unat (mFreeBitCount bv - 1) < ?k" unfolding u using f by linarith
    then show ?thesis
      using ne c False by (simp add: pushBack_free wellformed_def)
  qed
  show "unat (size_bv (pushBack junk bv)) = unat (size_bv bv) + 1"
  proof (cases "mFreeBitCount bv = 0")
    case True
    have "?k \<le> (length ?c + 1) * ?k" by simp
    also have "\<dots> < 2 ^ (LENGTH('s) - 1)" using assms(2) True by simp
    finally have "?k < 2 ^ LENGTH('s)" by (rule below_half)
    then have f': "unat (mFreeBitCount (pushBack junk bv)) = ?k - 1"
      using True by (simp add: pushBack_grow unat_of_nat_K_minus_1)
    have l': "length (mContainer (pushBack junk bv)) * ?k = length ?c * ?k + ?k"
      using True by (simp add: pushBack_grow)
    have s0: "unat (size_bv bv) = length ?c * ?k"
      using True by (simp add: size_bv_unat[OF assms(1)])
    have "unat (size_bv (pushBack junk bv)) = (length ?c * ?k + ?k) - (?k - 1)"
      unfolding size_bv_unat[OF w] f' l' ..
    also have "\<dots> = length ?c * ?k + 1"
      using len_gt_0[where 'a = 'a] by linarith
    finally show ?thesis by (simp add: s0)
  next
    case False
    have f': "unat (mFreeBitCount (pushBack junk bv)) = unat (mFreeBitCount bv) - 1"
      using False by (simp add: pushBack_free unat_pred)
    have l': "length (mContainer (pushBack junk bv)) * ?k = length ?c * ?k"
      using False by (simp add: pushBack_free)
    have p: "0 < unat (mFreeBitCount bv)" using False by (simp add: unat_gt_0)
    have le: "unat (mFreeBitCount bv) \<le> length ?c * ?k"
      by (rule wellformed_free_le[OF assms(1)])
    have "unat (size_bv (pushBack junk bv)) = length ?c * ?k - (unat (mFreeBitCount bv) - 1)"
      unfolding size_bv_unat[OF w] f' l' ..
    also have "\<dots> = (length ?c * ?k - unat (mFreeBitCount bv)) + 1"
      using p le by linarith
    finally show ?thesis by (simp only: size_bv_unat[OF assms(1)])
  qed
  show "length (mContainer (pushBack junk bv)) * ?k
         = (if mFreeBitCount bv = 0 then length ?c * ?k + ?k else length ?c * ?k)"
    by (simp add: pushBack_grow pushBack_free)
  show "bit_at (mContainer (pushBack junk bv)) j = bit_at ?c j" if "j < length ?c * ?k" for j
    using that by (cases "mFreeBitCount bv = 0") (simp_all add: pushBack_grow pushBack_free bit_at_append)
qed

lemma pushBack_value_wellformed:
  fixes bv :: "('a::len word, 's::len word) bitvector"
  assumes "wellformed bv"
    and "mFreeBitCount bv = 0 \<longrightarrow> (length (mContainer bv) + 1) * LENGTH('a) < 2 ^ (LENGTH('s) - 1)"
  shows "\<exists>bv'. pushBack_value junk bv v = Some bv'
           \<and> wellformed bv'
           \<and> mFreeBitCount bv' = mFreeBitCount (pushBack junk bv)
           \<and> length (mContainer bv') = length (mContainer (pushBack junk bv))
           \<and> unat (size_bv bv') = unat (size_bv bv) + 1
           \<and> (\<forall>j. j < length (mContainer bv) * LENGTH('a) \<longrightarrow>
                 bit_at (mContainer bv') j
                 = (if j = unat (size_bv bv) then v else bit_at (mContainer bv) j))
           \<and> bit_at (mContainer bv') (unat (size_bv bv)) = v"
proof -
  let ?bv1 = "pushBack junk bv"
  let ?s = "unat (size_bv bv)"
  note pb = pushBack_wellformed[OF assms, where junk = junk]
  have e: "iter_dec (end_bv ?bv1) = iter_at ?s"
    by (simp add: end_bv_at[OF pb(1)] pb(2) iter_dec_at)
  have "?s < unat (size_bv ?bv1)" by (simp add: pb(2))
  also have "\<dots> \<le> length (mContainer ?bv1) * LENGTH('a)" by (rule size_bv_le_capacity[OF pb(1)])
  finally have r: "?s < length (mContainer ?bv1) * LENGTH('a)" .
  obtain c' where c': "ref_assign (mContainer ?bv1) (iter_at ?s) v = Some c'"
      "length c' = length (mContainer ?bv1)"
    and b: "\<And>j. bit_at c' j = (if j = ?s then v else bit_at (mContainer ?bv1) j)"
    using ref_assign_at[OF r, of v] by blast
  let ?bv' = "?bv1\<lparr>mContainer := c'\<rparr>"
  have run: "pushBack_value junk bv v = Some ?bv'"
    by (simp add: pushBack_value_def Let_def e c')
  have w: "wellformed ?bv'"
    using pb(1) c'(2) by (auto simp: wellformed_def)
  have s: "unat (size_bv ?bv') = ?s + 1"
    using pb(2) c'(2) by (simp add: size_bv_def vector_size_def)
  have "bit_at (mContainer ?bv') j = (if j = ?s then v else bit_at (mContainer bv) j)"
    if "j < length (mContainer bv) * LENGTH('a)" for j
    using that by (simp add: b pb(4))
  then show ?thesis using run w s c'(2) b by simp
qed

lemma bits_of_eqI:
  assumes "unat (size_bv bv') = length xs"
    and "\<And>j. j < length xs \<Longrightarrow> bit_at (mContainer bv') j = xs ! j"
  shows "bits_of bv' = xs"
  by (rule nth_equalityI) (simp_all add: assms length_bits_of nth_bits_of)

lemma popBack_wellformed:
  fixes bv :: "('a::len word, 's::len word) bitvector"
  assumes "wellformed bv" "mContainer bv \<noteq> []"
  shows "\<exists>bv'. popBack bv = Some bv' \<and> wellformed bv'
           \<and> unat (size_bv bv') = unat (size_bv bv) - 1
           \<and> 0 < unat (size_bv bv)
           \<and> (\<forall>j. j < unat (size_bv bv) - 1 \<longrightarrow>
                  bit_at (mContainer bv') j = bit_at (mContainer bv) j)"
proof -
  let ?k = "LENGTH('a)"
  let ?c = "mContainer bv"
  let ?f = "mFreeBitCount bv"
  have k: "?k < 2 ^ (LENGTH('s) - 1)" by (rule wellformed_kbound[OF assms])
  then have k': "?k < 2 ^ LENGTH('s)" by (rule below_half)
  have f: "unat ?f < ?k" using assms(1) by (simp add: wellformed_def)
  have len: "1 \<le> length ?c" using assms(2) by (cases ?c) simp_all
  then have cap: "?k \<le> length ?c * ?k" by simp
  have "unat ?f + unat (1 :: 's word) < 2 ^ LENGTH('s)" using f k' by simp
  then have u: "unat (?f + 1) = unat ?f + 1" by (simp add: unat_add_lem[THEN iffD1])
  have uk: "unat (of_nat ?k :: 's word) = ?k" using k' by (rule unat_of_nat_small)
  have eqk: "?f + 1 = of_nat ?k \<longleftrightarrow> unat ?f + 1 = ?k"
    using u uk by (metis word_unat_eq_iff)
  have pos: "0 < unat (size_bv bv)"
    unfolding size_bv_unat[OF assms(1)] using f cap by linarith
  show ?thesis
  proof (cases "?f + 1 = of_nat ?k")
    case True
    let ?bv' = "\<lparr>mContainer = butlast ?c, mFreeBitCount = 0 :: 's word\<rparr>"
    have run: "popBack bv = Some ?bv'"
      using True assms(2) by (simp add: popBack_def empty_bv_def Let_def vector_popBack_def)
    have "length (butlast ?c) * ?k \<le> length ?c * ?k" by simp
    moreover have "length ?c * ?k < 2 ^ (LENGTH('s) - 1)"
      using assms(1) by (simp add: wellformed_def)
    ultimately have "length (butlast ?c) * ?k < 2 ^ (LENGTH('s) - 1)"
      by (rule order_le_less_trans)
    then have w: "wellformed ?bv'"
      by (simp add: wellformed_def)
    have fk: "unat ?f + 1 = ?k" using True eqk by simp
    have "(length ?c - 1) * ?k = length ?c * ?k - ?k" by (simp add: diff_mult_distrib)
    then have s: "unat (size_bv ?bv') = unat (size_bv bv) - 1"
      using fk cap by (simp add: size_bv_unat[OF w] size_bv_unat[OF assms(1)])
    have "bit_at (mContainer ?bv') j = bit_at ?c j" if "j < unat (size_bv bv) - 1" for j
    proof -
      have "j < unat (size_bv ?bv')" using that s by simp
      also have "\<dots> \<le> length (butlast ?c) * ?k"
        using size_bv_le_capacity[OF w] by simp
      finally have "j < (length ?c - 1) * ?k" by simp
      then have "bit_at (take (length ?c - 1) ?c) j = bit_at ?c j" by (rule bit_at_take)
      then show ?thesis by (simp add: butlast_conv_take)
    qed
    then show ?thesis using run w s pos by simp
  next
    case False
    let ?bv' = "bv\<lparr>mFreeBitCount := ?f + 1\<rparr>"
    have run: "popBack bv = Some ?bv'"
      using False assms(2) by (simp add: popBack_def empty_bv_def Let_def)
    have fk: "unat ?f + 1 < ?k" using False eqk f by linarith
    have w: "wellformed ?bv'"
      using assms fk u by (simp add: wellformed_def)
    have s: "unat (size_bv ?bv') = unat (size_bv bv) - 1"
      using u by (simp add: size_bv_unat[OF w] size_bv_unat[OF assms(1)])
    show ?thesis using run w s pos by simp
  qed
qed

subsection \<open>resize\<close>

lemma ceil_bounds:
  fixes n k :: nat
  assumes "0 < k"
  shows "n \<le> ((n + k - 1) div k) * k" and "((n + k - 1) div k) * k < n + k"
proof -
  let ?m = "n + k - 1"
  have m: "?m = (?m div k) * k + ?m mod k" by simp
  have r: "?m mod k < k" using assms by simp
  show "n \<le> (?m div k) * k" using m r assms by linarith
  show "(?m div k) * k < n + k" using m assms by linarith
qed

lemma nat_sub_less: "(a::nat) < n + k \<Longrightarrow> 0 < k \<Longrightarrow> a - n < k"
  by linarith

lemma ceil_zero:
  fixes n k :: nat
  assumes "0 < k" "(n + k - 1) div k = 0"
  shows "n = 0"
  using ceil_bounds(1)[OF assms(1), of n] assms(2) by simp

lemma unat_plus_K_minus_1:
  fixes n :: "'s::len word"
  assumes "LENGTH('a::len) < 2 ^ LENGTH('s)" "unat n + LENGTH('a) - 1 < 2 ^ LENGTH('s)"
  shows "unat (n + of_nat LENGTH('a) - 1) = unat n + LENGTH('a) - 1"
proof -
  have e: "(of_nat (LENGTH('a) - 1) :: 's word) = of_nat LENGTH('a) - of_nat 1"
    by (rule of_nat_diff) (simp add: Suc_leI)
  have k1: "LENGTH('a) - 1 < 2 ^ LENGTH('s)" using assms(1) by linarith
  have u: "unat (of_nat (LENGTH('a) - 1) :: 's word) = LENGTH('a) - 1"
    using k1 by (rule unat_of_nat_small)
  have "unat n + unat (of_nat (LENGTH('a) - 1) :: 's word) < 2 ^ LENGTH('s)"
    unfolding u using assms(2) len_gt_0[where 'a = 'a] by linarith
  then have "unat (n + of_nat (LENGTH('a) - 1)) = unat n + unat (of_nat (LENGTH('a) - 1) :: 's word)"
    by (rule unat_add_lem[THEN iffD1])
  then have "unat (n + of_nat (LENGTH('a) - 1)) = unat n + LENGTH('a) - 1"
    unfolding u using len_gt_0[where 'a = 'a] by linarith
  moreover have "n + of_nat (LENGTH('a) - 1) = n + (of_nat LENGTH('a) - of_nat 1)"
    by (simp only: e)
  moreover have "n + (of_nat LENGTH('a) - of_nat 1) = n + of_nat LENGTH('a) - 1"
    by simp
  ultimately show ?thesis by (simp only:)
qed

lemma resize_words:
  fixes n :: "'s::len word"
  assumes "LENGTH('a::len) < 2 ^ LENGTH('s)" "unat n + LENGTH('a) - 1 < 2 ^ LENGTH('s)"
  defines "wordCount \<equiv> (n + of_nat LENGTH('a) - 1) div of_nat LENGTH('a)"
  shows "unat wordCount = (unat n + LENGTH('a) - 1) div LENGTH('a)"
    and "unat (wordCount * of_nat LENGTH('a) - n)
         = ((unat n + LENGTH('a) - 1) div LENGTH('a)) * LENGTH('a) - unat n"
proof -
  let ?k = "LENGTH('a)"
  let ?q = "(unat n + ?k - 1) div ?k"
  have uk: "unat (of_nat ?k :: 's word) = ?k" using assms(1) by (rule unat_of_nat_small)
  show q: "unat wordCount = ?q"
    unfolding wordCount_def unat_div uk unat_plus_K_minus_1[OF assms(1,2)] ..
  have b1: "unat n \<le> ?q * ?k" and b2: "?q * ?k < unat n + ?k"
    using ceil_bounds[of ?k "unat n"] by simp_all
  have "unat wordCount * unat (of_nat ?k :: 's word) < 2 ^ LENGTH('s)"
    unfolding q uk using b2 assms(2) by linarith
  then have "unat (wordCount * of_nat ?k) = unat wordCount * unat (of_nat ?k :: 's word)"
    by (rule unat_mult_lem[THEN iffD1])
  then have m: "unat (wordCount * of_nat ?k) = ?q * ?k" by (simp only: q uk)
  have "n \<le> wordCount * of_nat ?k"
    unfolding word_le_nat_alt m by (rule b1)
  then have "unat (wordCount * of_nat ?k - n) = unat (wordCount * of_nat ?k) - unat n"
    by (rule unat_sub)
  then show "unat (wordCount * of_nat ?k - n) = ?q * ?k - unat n" by (simp only: m)
qed

lemma length_vector_resize: "length (vector_resize c n junk) = unat n"
  by (simp add: vector_resize_def)

lemma bit_at_vector_resize:
  fixes c :: "'a::len word list"
  assumes "j < length c * LENGTH('a)" "j < unat n * LENGTH('a)"
  shows "bit_at (vector_resize c n junk) j = bit_at c j"
  using assms by (simp add: vector_resize_def bit_at_take bit_at_append)

lemma nth_vector_resize_new:
  assumes "length c \<le> i" "i < unat n"
  shows "vector_resize c n junk ! i = junk i"
  using assms by (simp add: vector_resize_def nth_append)

lemma size_bv_resize: "size_bv (resize junk bv n) = n"
  by (simp add: size_bv_def resize_def Let_def vector_size_def length_vector_resize)

lemma resize_general:
  fixes bv :: "('a::len word, 's::len word) bitvector" and n :: "'s word"
  assumes k: "LENGTH('a) < 2 ^ LENGTH('s)"
    and r: "unat n + LENGTH('a) - 1 < 2 ^ LENGTH('s)"
    and c: "((unat n + LENGTH('a) - 1) div LENGTH('a)) * LENGTH('a) < 2 ^ (LENGTH('s) - 1)"
  shows "wellformed (resize junk bv n)"
    and "length (mContainer (resize junk bv n)) = (unat n + LENGTH('a) - 1) div LENGTH('a)"
    and "unat (mFreeBitCount (resize junk bv n))
         = ((unat n + LENGTH('a) - 1) div LENGTH('a)) * LENGTH('a) - unat n"
    and "\<And>j. j < length (mContainer bv) * LENGTH('a) \<Longrightarrow> j < unat n
           \<Longrightarrow> bit_at (mContainer (resize junk bv n)) j = bit_at (mContainer bv) j"
proof -
  let ?k = "LENGTH('a)"
  let ?q = "(unat n + ?k - 1) div ?k"
  let ?wc = "(n + of_nat ?k - 1) div of_nat ?k :: 's word"
  note rw = resize_words[OF k r]
  have b1: "unat n \<le> ?q * ?k" and b2: "?q * ?k < unat n + ?k"
    using ceil_bounds[of ?k "unat n"] by simp_all
  show l: "length (mContainer (resize junk bv n)) = ?q"
    by (simp add: resize_def Let_def length_vector_resize rw(1))
  show f: "unat (mFreeBitCount (resize junk bv n)) = ?q * ?k - unat n"
    by (simp add: resize_def Let_def rw(2))
  have f0: "mFreeBitCount (resize junk bv n) = 0" if "mContainer (resize junk bv n) = []"
  proof -
    have "?q = 0" using that l by simp
    then have "unat (mFreeBitCount (resize junk bv n)) = 0" unfolding f by simp
    then show ?thesis by (simp only: unat_0_iff)
  qed
  have "unat (mFreeBitCount (resize junk bv n)) < ?k" unfolding f using b2 by (rule nat_sub_less) simp
  moreover have "?q * ?k < 2 ^ (LENGTH('s) - 1)"
    by (rule c)
  then have "length (mContainer (resize junk bv n)) * ?k < 2 ^ (LENGTH('s) - 1)"
    by (simp only: l)
  ultimately show "wellformed (resize junk bv n)"
    using f0 by (simp add: wellformed_def)
  show "bit_at (mContainer (resize junk bv n)) j = bit_at (mContainer bv) j"
    if "j < length (mContainer bv) * ?k" "j < unat n" for j
  proof -
    have "j < ?q * ?k" using that(2) b1 by linarith
    then have "j < unat ?wc * ?k" by (simp only: rw(1))
    then show ?thesis
      using that(1) by (simp add: resize_def Let_def bit_at_vector_resize)
  qed
qed

lemma resize_wellformed:
  fixes bv :: "('a::len word, 's::len word) bitvector" and n :: "'s word"
  assumes "unat n + LENGTH('a) \<le> 2 ^ (LENGTH('s) - 1)"
  shows "wellformed (resize junk bv n)"
    and "length (mContainer (resize junk bv n)) = (unat n + LENGTH('a) - 1) div LENGTH('a)"
    and "unat (mFreeBitCount (resize junk bv n))
         = ((unat n + LENGTH('a) - 1) div LENGTH('a)) * LENGTH('a) - unat n"
    and "\<And>j. j < length (mContainer bv) * LENGTH('a) \<Longrightarrow> j < unat n
           \<Longrightarrow> bit_at (mContainer (resize junk bv n)) j = bit_at (mContainer bv) j"
proof -
  let ?k = "LENGTH('a)"
  have h: "(2::nat) ^ (LENGTH('s) - 1) < 2 ^ LENGTH('s)" by (rule half_range)
  have k: "?k < 2 ^ LENGTH('s)" using assms h by linarith
  have r: "unat n + ?k - 1 < 2 ^ LENGTH('s)" using assms h by linarith
  have "((unat n + ?k - 1) div ?k) * ?k < unat n + ?k"
    using ceil_bounds(2)[of ?k "unat n"] by simp
  then have c: "((unat n + ?k - 1) div ?k) * ?k < 2 ^ (LENGTH('s) - 1)"
    using assms by (rule order_less_le_trans)
  note g = resize_general[OF k r c]
  show "wellformed (resize junk bv n)" by (rule g(1))
  show "length (mContainer (resize junk bv n)) = (unat n + ?k - 1) div ?k" by (rule g(2))
  show "unat (mFreeBitCount (resize junk bv n)) = ((unat n + ?k - 1) div ?k) * ?k - unat n"
    by (rule g(3))
  show "bit_at (mContainer (resize junk bv n)) j = bit_at (mContainer bv) j"
    if "j < length (mContainer bv) * ?k" "j < unat n" for j
    using that by (rule g(4))
qed

text \<open>The free-bit count after \<^verbatim>\<open>resize\<close> is below \<^verbatim>\<open>kBitCount\<close> for every argument,
  also when \<^verbatim>\<open>n + kBitCount - 1\<close> wraps.\<close>

lemma resize_free_less:
  fixes bv :: "('a::len word, 's::len word) bitvector" and n :: "'s word"
  assumes "LENGTH('a) < 2 ^ LENGTH('s)"
  shows "unat (mFreeBitCount (resize junk bv n)) < LENGTH('a)"
proof -
  let ?k = "LENGTH('a)"
  let ?x = "n + of_nat ?k - 1 :: 's word"
  let ?wc = "?x div of_nat ?k :: 's word"
  have uk: "unat (of_nat ?k :: 's word) = ?k" using assms by (rule unat_of_nat_small)
  have "?wc * of_nat ?k + ?x mod of_nat ?k = ?x"
    by (rule div_mult_mod_eq)
  then have "?wc * of_nat ?k - n = of_nat ?k - 1 - ?x mod of_nat ?k"
    by (simp add: algebra_simps)
  moreover have m: "unat (?x mod of_nat ?k) = unat ?x mod ?k"
    by (simp only: unat_mod uk)
  have ml: "unat ?x mod ?k < ?k" by simp
  have k1: "unat (of_nat ?k - 1 :: 's word) = ?k - 1"
    using assms by (rule unat_of_nat_K_minus_1)
  have "?x mod of_nat ?k \<le> of_nat ?k - 1"
    unfolding word_le_nat_alt m k1 using ml by linarith
  then have "unat (of_nat ?k - 1 - ?x mod of_nat ?k) = unat (of_nat ?k - 1 :: 's word) - unat (?x mod of_nat ?k)"
    by (rule unat_sub)
  then have "unat (of_nat ?k - 1 - ?x mod of_nat ?k) < ?k"
    unfolding m k1 using ml by linarith
  ultimately show ?thesis by (simp add: resize_def Let_def)
qed

section \<open>Checked and defaulted access\<close>

lemma iter_add_begin_index:
  fixes bv :: "('a::len word, 's::len word) bitvector" and n :: "'s word"
  assumes "unat n < 2 ^ (LENGTH('s) - 1)"
  shows "iter_add (begin_bv bv) (sint n) = iter_at (unat n)"
proof -
  have "0 \<le> int 0 + int (unat n)" by simp
  then have "iter_add (iter_at 0 :: 'a bitvector_reference) (int (unat n)) = iter_at (nat (int 0 + int (unat n)))"
    by (rule iter_add_at)
  also have "nat (int 0 + int (unat n)) = unat n" by simp
  finally show ?thesis by (simp only: begin_bv_at sint_small[OF assms])
qed

lemma size_bv_index:
  fixes bv :: "('a::len word, 's::len word) bitvector" and n :: "'s word"
  assumes "wellformed bv" "n < size_bv bv"
  shows "unat n < unat (size_bv bv)" and "unat n < 2 ^ (LENGTH('s) - 1)"
    and "unat n < length (mContainer bv) * LENGTH('a)"
proof -
  show 1: "unat n < unat (size_bv bv)" using assms(2) by (simp only: word_less_nat_alt)
  show "unat n < 2 ^ (LENGTH('s) - 1)"
    using 1 size_bv_half[OF assms(1)] by (rule order_less_trans)
  show "unat n < length (mContainer bv) * LENGTH('a)"
    using 1 size_bv_le_capacity[OF assms(1)] by (rule order_less_le_trans)
qed

text \<open>
  Claim C8, amended. In a build with \<^verbatim>\<open>EASTL_EXCEPTIONS_ENABLED\<close>, \<^verbatim>\<open>at(n)\<close> on a well-formed
  sequence fails with \<^verbatim>\<open>out_of_range\<close> if and only if \<open>n \<ge> size()\<close>; when \<open>n < size()\<close> it
  returns the reference to word \<open>n div kBitCount\<close>, offset \<open>n mod kBitCount\<close>, which reads
  bit \<open>n\<close> of the sequence. \<^verbatim>\<open>test(n, defaultValue)\<close> always returns: bit \<open>n\<close> when
  \<open>n < size()\<close>, \<^verbatim>\<open>defaultValue\<close> otherwise. Neither function has a state to return: both
  leave the sequence as it is. \<^verbatim>\<open>out_of_range\<close> is the only error value of the embedding.
\<close>

theorem at_fails_iff_out_of_range:
  fixes bv :: "('a::len word, 's::len word) bitvector" and n :: "'s word"
  assumes "wellformed bv"
  shows "(at_bv True bv n = Inl out_of_range \<longleftrightarrow> n \<ge> size_bv bv)
       \<and> (n < size_bv bv \<longrightarrow>
            at_bv True bv n = Inr (iter_at (unat n))
            \<and> ref_bool (store (mContainer bv)) (iter_at (unat n)) = Some (bits_of bv ! unat n))
       \<and> test bv n defaultValue = Some (if n < size_bv bv then bits_of bv ! unat n else defaultValue)"
proof -
  have 1: "at_bv True bv n = Inl out_of_range \<longleftrightarrow> n \<ge> size_bv bv"
    by (simp add: at_bv_def)
  have 2: "at_bv True bv n = Inr (iter_at (unat n))
           \<and> ref_bool (store (mContainer bv)) (iter_at (unat n)) = Some (bits_of bv ! unat n)
           \<and> test bv n defaultValue = Some (bits_of bv ! unat n)"
    if lt: "n < size_bv bv"
  proof -
    note i = size_bv_index[OF assms lt]
    have a: "iter_add (begin_bv bv) (sint n) = iter_at (unat n)"
      by (rule iter_add_begin_index[OF i(2)])
    have r: "ref_bool (store (mContainer bv)) (iter_at (unat n)) = Some (bits_of bv ! unat n)"
      by (simp only: ref_bool_at[OF i(3)] nth_bits_of[OF i(1)])
    have "at_bv True bv n = Inr (iter_at (unat n))"
      using lt by (simp add: at_bv_def a)
    moreover have "test bv n defaultValue = Some (bits_of bv ! unat n)"
      using lt by (simp add: test_def a r)
    ultimately show ?thesis using r by simp
  qed
  have 3: "test bv n defaultValue = Some defaultValue" if "\<not> n < size_bv bv"
    using that by (simp add: test_def)
  show ?thesis using 1 2 3 by auto
qed

theorem at_fails_iff_out_of_range_witness:
  "wellformed (bitvector_n_value 40 True :: (32 word, 64 word) bitvector)
   \<and> at_bv True (bitvector_n_value 40 True :: (32 word, 64 word) bitvector) 40 = Inl out_of_range
   \<and> at_bv True (bitvector_n_value 40 True :: (32 word, 64 word) bitvector) 39 = Inr (Reference 1 7)
   \<and> test (bitvector_n_value 40 True :: (32 word, 64 word) bitvector) 39 False = Some True
   \<and> test (bitvector_n_value 40 True :: (32 word, 64 word) bitvector) 40 False = Some False"
proof -
  have w: "wellformed (bitvector_n_value 40 True :: (32 word, 64 word) bitvector)"
    by (simp add: wellformed_def bitvector_n_value_def vector_resize_value_def vector_resize_def Let_def)
  have s: "size_bv (bitvector_n_value 40 True :: (32 word, 64 word) bitvector) = 40"
    by code_simp
  have b: "bits_of (bitvector_n_value 40 True :: (32 word, 64 word) bitvector) ! 39 = True"
    by code_simp
  have i: "(iter_at 39 :: 32 bitvector_reference) = Reference 1 7"
    by (simp add: iter_at_def)
  show ?thesis
    using at_fails_iff_out_of_range[OF w, of 40 False] at_fails_iff_out_of_range[OF w, of 39 False] w
    by (simp add: s b i)
qed

text \<open>The claim as stated, for every bitvector: with 32-bit words and a 64-bit
  \<^verbatim>\<open>size_type\<close>, the constructor \<^verbatim>\<open>bitvector(n)\<close> with \<open>n = 2^64 - 2\<close> computes its word count
  from a sum that wraps and leaves an empty store of size \<open>n\<close>. There \<open>0 < size()\<close>, yet
  \<^verbatim>\<open>test(0, false)\<close> has no result, and \<^verbatim>\<open>at(0)\<close> returns a reference to word 0 of an
  empty store, which designates no bit.\<close>

theorem at_on_wrapped_size_counterexample:
  "reachable (bitvector_n zero_fill (- 2) :: (32 word, 64 word) bitvector)
   \<and> (bitvector_n zero_fill (- 2) :: (32 word, 64 word) bitvector)
       = \<lparr>mContainer = [], mFreeBitCount = 2\<rparr>
   \<and> (0 :: 64 word) < size_bv (bitvector_n zero_fill (- 2) :: (32 word, 64 word) bitvector)
   \<and> test (bitvector_n zero_fill (- 2) :: (32 word, 64 word) bitvector) 0 False = None
   \<and> at_bv True (bitvector_n zero_fill (- 2) :: (32 word, 64 word) bitvector) 0
       = Inr (Reference 0 0)
   \<and> ref_bool (store (mContainer (bitvector_n zero_fill (- 2) :: (32 word, 64 word) bitvector)))
        (Reference 0 0) = None"
proof -
  let ?a = "bitvector_n zero_fill (- 2) :: (32 word, 64 word) bitvector"
  have 0: "reachable ?a" by (rule r_n)
  have 1: "?a = \<lparr>mContainer = [], mFreeBitCount = 2\<rparr>" by code_simp
  have 2: "(0 :: 64 word) < size_bv ?a" by code_simp
  have 3: "test ?a 0 False = None" by code_simp
  have 4: "at_bv True ?a 0 = Inr (Reference 0 0)" by code_simp
  have 5: "ref_bool (store (mContainer ?a)) (Reference 0 0) = None" by code_simp
  show ?thesis using 0 1 2 3 4 5 by blast
qed

section \<open>Insertion\<close>

subsection \<open>Absolute and relative addresses\<close>

lemma rebase_iter_add: "rebase b (iter_add it n) = iter_add (rebase b it) n"
  by (simp add: rebase_def iter_add_def Let_def)

lemma rebase_iter_sub: "rebase b (iter_sub it n) = iter_sub (rebase b it) n"
  by (simp add: iter_sub_def rebase_iter_add)

lemma rebase_iter_inc: "rebase b (iter_inc it) = iter_inc (rebase b it)"
  by (simp add: rebase_def iter_inc_def Let_def)

lemma rebase_iter_dec: "rebase b (iter_dec it) = iter_dec (rebase b it)"
  by (simp add: rebase_def iter_dec_def Let_def)

lemma iter_diff_rebase: "iter_diff (rebase b x) (rebase b y) = iter_diff x y"
  by (simp add: rebase_def iter_diff_def)

lemma rebase_rebase: "rebase b (rebase (- b) it) = it"
  by (simp add: rebase_def)

lemma rebase_begin_at: "rebase b (begin_at b bv) = begin_bv bv"
  by (simp add: rebase_def begin_at_def begin_bv_def)

lemma rebase_end_at: "rebase b (end_at b bv) = end_bv bv"
  by (simp add: end_at_def end_bv_def rebase_iter_sub) (simp add: rebase_def)

lemma iter_add_begin_nat:
  fixes bv :: "('a::len word, 's::len word) bitvector"
  shows "iter_add (begin_bv bv) (int p) = iter_at p"
proof -
  have "0 \<le> int 0 + int p" by simp
  then have "iter_add (iter_at 0 :: 'a bitvector_reference) (int p) = iter_at (nat (int 0 + int p))"
    by (rule iter_add_at)
  also have "nat (int 0 + int p) = p" by simp
  finally show ?thesis by (simp only: begin_bv_at)
qed

lemma iter_diff_begin:
  fixes bv :: "('a::len word, 's::len word) bitvector"
  shows "iter_diff (iter_at p) (begin_bv bv) = int p"
  by (simp add: begin_bv_at iter_diff_at)

lemma begin_at_plus:
  fixes bv :: "('a::len word, 's::len word) bitvector"
  shows "iter_add (begin_at b bv) (int p) = rebase (- b) (iter_at p)"
proof -
  have "rebase b (iter_add (begin_at b bv) (int p)) = iter_at p"
    by (simp only: rebase_iter_add rebase_begin_at iter_add_begin_nat)
  then have "rebase (- b) (rebase b (iter_add (begin_at b bv) (int p))) = rebase (- b) (iter_at p)"
    by (simp only:)
  then show ?thesis by (simp add: rebase_def)
qed

subsection \<open>The diagnostic checks\<close>

lemma validateIterator_at:
  fixes bv :: "('a::len word, 's::len word) bitvector"
  assumes w: "wellformed bv" and p: "p \<le> unat (size_bv bv)"
    and i: "mFreeBitCount bv \<noteq> 0 \<or> p < unat (size_bv bv)"
  shows "\<exists>fl. validateIterator bv beyond (iter_at p) = Some fl
           \<and> fl AND isf_valid \<noteq> 0
           \<and> (p < unat (size_bv bv) \<longrightarrow> fl AND isf_can_dereference \<noteq> 0)"
proof -
  let ?k = "LENGTH('a)"
  let ?len = "length (mContainer bv)"
  let ?f = "unat (mFreeBitCount bv)"
  let ?d = "p div ?k"
  have f: "?f < ?k" using w by (simp add: wellformed_def)
  have s: "unat (size_bv bv) = ?len * ?k - ?f" by (rule size_bv_unat[OF w])
  have fle: "?f \<le> ?len * ?k" by (rule wellformed_free_le[OF w])
  have 7: "(isf_valid OR isf_current OR isf_can_dereference) AND isf_valid \<noteq> 0"
    "(isf_valid OR isf_current OR isf_can_dereference) AND isf_can_dereference \<noteq> 0"
    "(isf_valid OR isf_current) AND isf_valid \<noteq> 0"
    by (simp_all add: isf_valid_def isf_current_def isf_can_dereference_def)
  have pd: "p = ?d * ?k + p mod ?k" by simp
  show ?thesis
  proof (cases "mFreeBitCount bv = 0")
    case True
    then have "p < ?len * ?k" using i s by simp
    then have d: "?d < ?len" by (simp add: less_mult_imp_div_less)
    have "validateIterator bv beyond (iter_at p)
          = Some (isf_valid OR isf_current OR isf_can_dereference)"
      using d True by (simp add: validateIterator_def validate_def Let_def iter_at_def)
    then show ?thesis using 7 by simp
  next
    case False
    then have ne: "mContainer bv \<noteq> []" using w by (auto simp: wellformed_def)
    then have len1: "1 \<le> ?len" by (cases "mContainer bv") simp_all
    have k: "?k < 2 ^ LENGTH('s)" using wellformed_kbound[OF w ne] by (rule below_half)
    have uk: "unat (of_nat ?k :: 's word) = ?k" using k by (rule unat_of_nat_small)
    have "mFreeBitCount bv \<le> of_nat ?k" using f uk by (simp add: word_le_nat_alt)
    then have "unat (of_nat ?k - mFreeBitCount bv) = unat (of_nat ?k :: 's word) - ?f"
      by (rule unat_sub)
    then have ul: "unat (of_nat ?k - mFreeBitCount bv) = ?k - ?f" by (simp only: uk)
    have "p mod ?k < 2 ^ LENGTH('s)" using k by (meson mod_less_divisor len_gt_0 less_trans)
    then have ub: "unat (of_nat (p mod ?k) :: 's word) = p mod ?k" by (rule unat_of_nat_small)
    have f0: "0 < ?f" using False by (simp add: unat_gt_0)
    have se: "unat (size_bv bv) = (?len - 1) * ?k + (?k - ?f)"
    proof -
      have "?len * ?k = (?len - 1) * ?k + ?k" using len1 by (simp add: algebra_simps)
      then show ?thesis using s f by linarith
    qed
    show ?thesis
    proof (cases "?d = ?len - 1")
      case True
      have pm: "p = (?len - 1) * ?k + p mod ?k" using pd True by simp
      have le: "p mod ?k \<le> ?k - ?f" using p pm se by linarith
      have eq: "int ?d = int ?len - 1" using True len1 by simp
      show ?thesis
      proof (cases "p mod ?k = ?k - ?f")
        case True
        then have "(of_nat (p mod ?k) :: 's word) = of_nat ?k - mFreeBitCount bv"
          using ub ul by (simp add: word_unat_eq_iff)
        then have "validateIterator bv beyond (iter_at p) = Some (isf_valid OR isf_current)"
          using eq False ne by (simp add: validateIterator_def validate_def Let_def iter_at_def)
        moreover have "\<not> p < unat (size_bv bv)" using True pm se by linarith
        ultimately show ?thesis using 7 by simp
      next
        case F: False
        then have "p mod ?k < ?k - ?f" using le by linarith
        then have lt: "(of_nat (p mod ?k) :: 's word) < of_nat ?k - mFreeBitCount bv"
          using ub ul by (simp add: word_less_nat_alt)
        then have "(of_nat (p mod ?k) :: 's word) \<noteq> of_nat ?k - mFreeBitCount bv" by simp
        then have "validateIterator bv beyond (iter_at p)
                   = Some (isf_valid OR isf_current OR isf_can_dereference)"
          using eq False lt ne by (simp add: validateIterator_def validate_def Let_def iter_at_def)
        then show ?thesis using 7 by simp
      qed
    next
      case F: False
      have "p < ?len * ?k" using p s f0 fle by linarith
      then have "?d < ?len" by (simp add: less_mult_imp_div_less)
      then have lt: "?d < ?len - 1" using F by linarith
      then have "int ?d \<noteq> int ?len - 1" "int ?d < int ?len" by linarith+
      then have "validateIterator bv beyond (iter_at p)
                 = Some (isf_valid OR isf_current OR isf_can_dereference)"
        using False ne by (simp add: validateIterator_def validate_def Let_def iter_at_def)
      then show ?thesis using 7 by simp
    qed
  qed
qed

lemma assert_iterator_valid:
  fixes bv :: "('a::len word, 's::len word) bitvector"
  assumes "wellformed bv" "p \<le> unat (size_bv bv)"
    and "asserts \<longrightarrow> mFreeBitCount bv \<noteq> 0 \<or> p < unat (size_bv bv)"
  shows "assert_iterator asserts bv (iter_at p) isf_valid = Some ()"
proof (cases asserts)
  case True
  then obtain fl where "validateIterator bv None (iter_at p) = Some fl" "fl AND isf_valid \<noteq> 0"
    using validateIterator_at[OF assms(1,2), of None] assms(3) by blast
  then show ?thesis using True by (simp add: assert_iterator_def)
next
  case False
  then show ?thesis by (simp add: assert_iterator_def)
qed


subsection \<open>insert\<close>

lemma unat_succ_size:
  fixes x y :: "'s::len word"
  assumes "unat y = unat x + m" "m < 2 ^ LENGTH('s)"
  shows "y = x + of_nat m"
proof -
  have um: "unat (of_nat m :: 's word) = m" using assms(2) by (rule unat_of_nat_small)
  have "unat y < 2 ^ LENGTH('s)" by (rule unsigned_less)
  then have "unat x + unat (of_nat m :: 's word) < 2 ^ LENGTH('s)"
    unfolding um using assms(1) by linarith
  then have "unat (x + of_nat m) = unat x + unat (of_nat m :: 's word)"
    by (rule unat_add_lem[THEN iffD1])
  then have "unat (x + of_nat m) = unat y"
    unfolding um using assms(1) by linarith
  then show ?thesis by (simp only: word_unat_eq_iff)
qed

lemma insert_bv_at:
  fixes bv :: "('a::len word, 's::len word) bitvector"
  assumes "wellformed bv" and "p \<le> unat (size_bv bv)"
    and "mFreeBitCount bv = 0 \<longrightarrow> (length (mContainer bv) + 1) * LENGTH('a) < 2 ^ (LENGTH('s) - 1)"
    and "asserts \<longrightarrow> mFreeBitCount bv \<noteq> 0 \<or> p < unat (size_bv bv)"
  shows "\<exists>bv'. insert_bv asserts junk base base' bv (rebase (- base) (iter_at p)) v
                 = Some (bv', rebase (- base') (iter_at p))
           \<and> wellformed bv'
           \<and> unat (size_bv bv') = unat (size_bv bv) + 1
           \<and> bits_of bv' = take p (bits_of bv) @ v # drop p (bits_of bv)"
proof -
  let ?k = "LENGTH('a)"
  let ?s = "unat (size_bv bv)"
  let ?c = "mContainer bv"
  let ?bv1 = "pushBack junk bv"
  let ?c1 = "mContainer ?bv1"
  let ?position = "rebase (- base) (iter_at p) :: 'a bitvector_reference"
  let ?position' = "iter_add (begin_at base' ?bv1) (iter_diff ?position (begin_at base bv))"
  note pb = pushBack_wellformed[OF assms(1,3), where junk = junk]
  have cap: "?s \<le> length ?c * ?k" by (rule size_bv_le_capacity[OF assms(1)])
  have "unat (size_bv ?bv1) \<le> length ?c1 * ?k" by (rule size_bv_le_capacity[OF pb(1)])
  then have cap1: "?s + 1 \<le> length ?c1 * ?k" by (simp only: pb(2))
  have chk: "assert_iterator asserts bv (rebase base ?position) isf_valid = Some ()"
    unfolding rebase_rebase by (rule assert_iterator_valid[OF assms(1,2,4)])
  have n: "iter_diff ?position (begin_at base bv) = int p"
  proof -
    have "iter_diff ?position (begin_at base bv)
          = iter_diff (rebase base ?position) (rebase base (begin_at base bv))"
      by (simp only: iter_diff_rebase)
    then show ?thesis by (simp only: rebase_rebase rebase_begin_at iter_diff_begin)
  qed
  have ret: "?position' = rebase (- base') (iter_at p)"
    unfolding n by (rule begin_at_plus)
  have pos: "rebase base' ?position' = iter_at p"
    unfolding ret by (rule rebase_rebase)
  have stop: "rebase base' (iter_dec (end_at base' ?bv1)) = iter_at (p + (?s - p))"
    using assms(2)
    by (simp add: rebase_iter_dec rebase_end_at end_bv_at[OF pb(1)] pb(2) iter_dec_at)
  have inc: "rebase base' (iter_inc ?position') = iter_at (Suc p)"
    by (simp only: rebase_iter_inc pos iter_inc_at)
  have m1: "p + (?s - p) \<le> length ?c1 * ?k" and m2: "Suc p + (?s - p) \<le> length ?c1 * ?k"
    using assms(2) cap1 by linarith+
  obtain c2 where c2: "MoveBits ?c1 (iter_at p) (iter_at (p + (?s - p))) (iter_at (Suc p)) = Some c2"
      "length c2 = length ?c1"
    and b2: "\<And>j. bit_at c2 j
               = (if Suc p \<le> j \<and> j < Suc p + (?s - p) then bit_at ?c1 (j - Suc p + p) else bit_at ?c1 j)"
    using MoveBits_at[OF m1 m2] by blast
  have "p < length c2 * ?k" using cap1 assms(2) c2(2) by simp
  then obtain c3 where c3: "ref_assign c2 (iter_at p) v = Some c3" "length c3 = length c2"
    and b3: "\<And>j. bit_at c3 j = (if j = p then v else bit_at c2 j)"
    using ref_assign_at[of p c2 v] by blast
  let ?bv' = "?bv1\<lparr>mContainer := c3\<rparr>"
  have "insert_bv asserts junk base base' bv ?position v = Some (?bv', ?position')"
    unfolding insert_bv_def Let_def chk pos stop inc by (simp add: c2 c3)
  then have run: "insert_bv asserts junk base base' bv ?position v
                  = Some (?bv', rebase (- base') (iter_at p))"
    by (simp only: ret)
  have l: "length c3 = length ?c1" by (simp only: c3(2) c2(2))
  have w: "wellformed ?bv'"
    using pb(1) l by (auto simp: wellformed_def)
  have s: "unat (size_bv ?bv') = ?s + 1"
    using pb(2) l by (simp add: size_bv_def vector_size_def)
  let ?xs = "take p (bits_of bv) @ v # drop p (bits_of bv)"
  have lx: "length ?xs = ?s + 1" using assms(2) by (simp add: length_bits_of)
  have "bit_at c3 j = ?xs ! j" if j: "j < length ?xs" for j
  proof -
    have js: "j < ?s + 1" using j lx by simp
    consider "j < p" | "j = p" | "p < j" by linarith
    then show ?thesis
    proof cases
      case 1
      then have "j < ?s" using assms(2) by linarith
      then have jc: "j < length ?c * ?k" using cap by linarith
      have "bit_at c3 j = bit_at c2 j" using 1 by (simp add: b3)
      also have "\<dots> = bit_at ?c1 j" using 1 by (simp add: b2)
      also have "\<dots> = bit_at ?c j" by (rule pb(4)[OF jc])
      also have "\<dots> = bits_of bv ! j" using \<open>j < ?s\<close> by (simp add: nth_bits_of)
      also have "\<dots> = ?xs ! j" using 1 assms(2) by (simp add: nth_append length_bits_of)
      finally show ?thesis .
    next
      case 2
      then show ?thesis using assms(2) by (simp add: b3 nth_append length_bits_of)
    next
      case 3
      then obtain i where i: "j = Suc i" "p \<le> i" by (cases j) simp_all
      have isz: "i < ?s" using js i by simp
      then have ic: "i < length ?c * ?k" using cap by linarith
      have rng: "Suc p \<le> j \<and> j < Suc p + (?s - p)" using 3 js assms(2) by linarith
      have idx: "j - Suc p + p = i" using i by simp
      have "bit_at c3 j = bit_at c2 j" using 3 by (simp add: b3)
      also have "\<dots> = bit_at ?c1 (j - Suc p + p)" using rng by (simp only: b2 if_True simp_thms)
      also have "\<dots> = bit_at ?c1 i" by (simp only: idx)
      also have "\<dots> = bit_at ?c i" by (rule pb(4)[OF ic])
      also have "\<dots> = bits_of bv ! i" using isz by (simp add: nth_bits_of)
      also have "\<dots> = ?xs ! j"
        using i assms(2) isz by (simp add: nth_append length_bits_of Suc_diff_le)
      finally show ?thesis .
    qed
  qed
  then have "bits_of ?bv' = ?xs"
    using s lx by (intro bits_of_eqI) simp_all
  then show ?thesis using run w s by blast
qed

lemma bits_of_index_const:
  fixes bv :: "('a::len word, 's::len word) bitvector"
  assumes "wellformed bv" "i < length (bits_of bv)"
  shows "index_const bv (of_nat i) = Some (bits_of bv ! i)"
  using assms by (simp add: length_bits_of index_const_at nth_bits_of)

text \<open>
  Claim C2, amended. On a well-formed sequence of size \<open>s\<close>, for a position \<open>p \<le> s\<close> and a
  boolean \<open>v\<close>, \<^verbatim>\<open>insert(begin() + p, v)\<close> returns; the size grows by 1, the bits at indices
  below \<open>p\<close> are unchanged, bit \<open>p\<close> is \<open>v\<close>, each bit formerly at an index \<open>i \<ge> p\<close> is at
  \<open>i + 1\<close>, and the returned iterator is \<^verbatim>\<open>begin() + p\<close> of the grown sequence: when the
  store has moved from \<open>base\<close> to \<open>base'\<close>, it is \<open>p\<close> bits behind \<open>base'\<close>. The bits are
  those that \<^verbatim>\<open>operator[]\<close> reads. When the insertion appends a word, the bit capacity
  of the grown store is to stay below \<open>2 ^ (w - 1)\<close>, \<open>w\<close> the width of \<^verbatim>\<open>size_type\<close>. In a
  build with \<^verbatim>\<open>EASTL_ASSERT_ENABLED\<close> this is stated for the positions other than the end
  of a sequence without free bits.
\<close>

theorem insert_shifts_suffix:
  fixes bv :: "('a::len word, 's::len word) bitvector"
  assumes "wellformed bv" and "p \<le> unat (size_bv bv)"
    and "mFreeBitCount bv = 0 \<longrightarrow> (length (mContainer bv) + 1) * LENGTH('a) < 2 ^ (LENGTH('s) - 1)"
    and "asserts \<longrightarrow> mFreeBitCount bv \<noteq> 0 \<or> p < unat (size_bv bv)"
  shows "\<exists>bv' it. insert_bv asserts junk base base' bv (iter_add (begin_at base bv) (int p)) v
                    = Some (bv', it)
           \<and> it = iter_add (begin_at base' bv') (int p)
           \<and> size_bv bv' = size_bv bv + 1
           \<and> length (bits_of bv') = length (bits_of bv) + 1
           \<and> (\<forall>i<p. bits_of bv' ! i = bits_of bv ! i)
           \<and> bits_of bv' ! p = v
           \<and> (\<forall>i. p \<le> i \<and> i < length (bits_of bv) \<longrightarrow> bits_of bv' ! (i + 1) = bits_of bv ! i)
           \<and> bits_of bv' = take p (bits_of bv) @ v # drop p (bits_of bv)
           \<and> (\<forall>i<length (bits_of bv'). index_const bv' (of_nat i) = Some (bits_of bv' ! i))"
proof -
  obtain bv' where run: "insert_bv asserts junk base base' bv (rebase (- base) (iter_at p)) v
                         = Some (bv', rebase (- base') (iter_at p))"
    and w: "wellformed bv'"
    and s: "unat (size_bv bv') = unat (size_bv bv) + 1"
    and b: "bits_of bv' = take p (bits_of bv) @ v # drop p (bits_of bv)"
    using insert_bv_at[OF assms, of junk base base' v] by blast
  have p: "p \<le> length (bits_of bv)" using assms(2) by (simp add: length_bits_of)
  have "(1::nat) < 2 ^ LENGTH('s)" by (rule one_less_power) simp_all
  with s have sz: "size_bv bv' = size_bv bv + 1"
    using unat_succ_size[of "size_bv bv'" "size_bv bv" 1] by simp
  have 1: "\<forall>i<p. bits_of bv' ! i = bits_of bv ! i"
    using p by (simp add: b nth_append)
  have 2: "bits_of bv' ! p = v"
    using p by (simp add: b nth_append)
  have 3: "\<forall>i. p \<le> i \<and> i < length (bits_of bv) \<longrightarrow> bits_of bv' ! (i + 1) = bits_of bv ! i"
    using p by (simp add: b nth_append Suc_diff_le)
  have 4: "\<forall>i<length (bits_of bv'). index_const bv' (of_nat i) = Some (bits_of bv' ! i)"
    using bits_of_index_const[OF w] by blast
  have 5: "length (bits_of bv') = length (bits_of bv) + 1"
    using s by (simp add: length_bits_of)
  show ?thesis
    using run sz 1 2 3 4 5 b by (simp add: begin_at_plus)
qed

theorem insert_shifts_suffix_witness:
  "wellformed \<lparr>mContainer = [15 :: 32 word], mFreeBitCount = 28 :: 64 word\<rparr>
   \<and> bits_of \<lparr>mContainer = [15 :: 32 word], mFreeBitCount = 28 :: 64 word\<rparr> = [True, True, True, True]
   \<and> iter_add (begin_at 1000 \<lparr>mContainer = [15 :: 32 word], mFreeBitCount = 28 :: 64 word\<rparr>) 2
       = Reference 1000 2
   \<and> (\<exists>bv' it. insert_bv True zero_fill 1000 2000
                   \<lparr>mContainer = [15 :: 32 word], mFreeBitCount = 28 :: 64 word\<rparr>
                   (Reference 1000 2) False = Some (bv', it)
          \<and> it = Reference 2000 2
          \<and> size_bv bv' = 5
          \<and> bits_of bv' = [True, True, False, True, True])"
proof -
  let ?bv = "\<lparr>mContainer = [15 :: 32 word], mFreeBitCount = 28 :: 64 word\<rparr>"
  have w: "wellformed ?bv" by (simp add: wellformed_def)
  have s: "size_bv ?bv = 4" by (simp add: size_bv_def vector_size_def)
  have p: "2 \<le> unat (size_bv ?bv)" by (simp add: s)
  have g: "mFreeBitCount ?bv = 0 \<longrightarrow> (length (mContainer ?bv) + 1) * LENGTH(32) < 2 ^ (LENGTH(64) - 1)"
    by simp
  have a: "True \<longrightarrow> mFreeBitCount ?bv \<noteq> 0 \<or> 2 < unat (size_bv ?bv)" by simp
  have b: "bits_of ?bv = [True, True, True, True]" by code_simp
  have i: "iter_add (begin_at x bv') 2 = (Reference x 2 :: 32 bitvector_reference)"
    for bv' :: "(32 word, 64 word) bitvector" and x
    by (simp add: begin_at_def iter_add_def)
  show ?thesis
    using insert_shifts_suffix[OF w p g a, of zero_fill 1000 2000 False] w
    by (auto simp: b s i)
qed

text \<open>The claim as stated, for every bitvector, with 32-bit words and a 64-bit
  \<^verbatim>\<open>size_type\<close>. On the sequence that \<^verbatim>\<open>bitvector(n)\<close> with \<open>n = 2^64 - 2\<close> constructs, an empty
  store of size \<open>n\<close> with two free bits, \<^verbatim>\<open>insert(begin(), true)\<close> claims a free bit of a
  word that is not there and has no result. On the empty sequence, in a build with
  \<^verbatim>\<open>EASTL_ASSERT_ENABLED\<close>, the opening check of \<^verbatim>\<open>insert(begin(), true)\<close> reads the word
  behind the store and the call has no result, where without assertions it returns the
  sequence of the one bit.\<close>

theorem insert_without_result_counterexample:
  "reachable (bitvector_n zero_fill (- 2) :: (32 word, 64 word) bitvector)
   \<and> (bitvector_n zero_fill (- 2) :: (32 word, 64 word) bitvector)
       = \<lparr>mContainer = [], mFreeBitCount = 2\<rparr>
   \<and> insert_bv False zero_fill 0 0 (bitvector_n zero_fill (- 2) :: (32 word, 64 word) bitvector)
        (begin_at 0 (bitvector_n zero_fill (- 2) :: (32 word, 64 word) bitvector)) True = None
   \<and> reachable (bitvector_default :: (32 word, 64 word) bitvector)
   \<and> size_bv (bitvector_default :: (32 word, 64 word) bitvector) = 0
   \<and> insert_bv True zero_fill 0 0 (bitvector_default :: (32 word, 64 word) bitvector)
        (begin_at 0 (bitvector_default :: (32 word, 64 word) bitvector)) True = None
   \<and> insert_bv False zero_fill 0 0 (bitvector_default :: (32 word, 64 word) bitvector)
        (begin_at 0 (bitvector_default :: (32 word, 64 word) bitvector)) True
       = Some (\<lparr>mContainer = [1], mFreeBitCount = 31\<rparr>, Reference 0 0)"
proof -
  let ?a = "bitvector_n zero_fill (- 2) :: (32 word, 64 word) bitvector"
  let ?d = "bitvector_default :: (32 word, 64 word) bitvector"
  have 0: "reachable ?a" by (rule r_n)
  have 1: "?a = \<lparr>mContainer = [], mFreeBitCount = 2\<rparr>" by code_simp
  let ?r = "\<lparr>mContainer = [], mFreeBitCount = 2\<rparr> :: (32 word, 64 word) bitvector"
  have mb: "MoveBits_backward ([] :: 32 word list) (Reference 0 0) (Reference (- 1) 30)
              (Reference (- 1) 31) = None"
    by (subst MoveBits_backward.simps) (simp add: ref_bool_def store_def iter_dec_def)
  have pb: "pushBack zero_fill ?r = \<lparr>mContainer = [], mFreeBitCount = 1\<rparr>" by code_simp
  have e: "end_at 0 (\<lparr>mContainer = [], mFreeBitCount = 1\<rparr> :: (32 word, 64 word) bitvector)
           = Reference (- 1) 31" by code_simp
  have mv: "MoveBits ([] :: 32 word list) (Reference 0 0) (Reference (- 1) 30) (Reference 0 (Suc 0))
            = None"
    by (simp add: MoveBits_def iter_le_def iter_add_def iter_diff_def Let_def mb)
  have "insert_bv False zero_fill 0 0 ?r (begin_at 0 ?r) True = None"
    by (simp add: insert_bv_def Let_def assert_iterator_def pb e begin_at_def rebase_def
          iter_diff_def iter_add_def iter_dec_def iter_inc_def mv)
  then have 2: "insert_bv False zero_fill 0 0 ?a (begin_at 0 ?a) True = None" by (simp only: 1)
  have 3: "reachable ?d" by (rule r_default)
  have 4: "size_bv ?d = 0" by code_simp
  have 5: "insert_bv True zero_fill 0 0 ?d (begin_at 0 ?d) True = None" by code_simp
  have mb': "MoveBits_backward ([0] :: 32 word list) (Reference 0 0) (Reference 0 0)
              (Reference 0 (Suc 0)) = Some [0]"
    by (subst MoveBits_backward.simps) simp
  have pb': "pushBack zero_fill ?d = \<lparr>mContainer = [0], mFreeBitCount = 31\<rparr>" by code_simp
  have e': "end_at 0 (\<lparr>mContainer = [0], mFreeBitCount = 31\<rparr> :: (32 word, 64 word) bitvector)
           = Reference 0 1" by code_simp
  have mv': "MoveBits ([0] :: 32 word list) (Reference 0 0) (Reference 0 0) (Reference 0 (Suc 0))
            = Some [0]"
    by (simp add: MoveBits_def iter_le_def iter_add_def iter_diff_def Let_def mb')
  have ra: "ref_assign ([0] :: 32 word list) (Reference 0 0) True = Some [1]" by code_simp
  have 6: "insert_bv False zero_fill 0 0 ?d (begin_at 0 ?d) True
           = Some (\<lparr>mContainer = [1], mFreeBitCount = 31\<rparr>, Reference 0 0)"
    by (simp add: insert_bv_def Let_def assert_iterator_def pb' e' begin_at_def rebase_def
          iter_diff_def iter_add_def iter_dec_def iter_inc_def mv' ra)
  show ?thesis using 0 1 2 3 4 5 6 by blast
qed

section \<open>Removal\<close>

subsection \<open>erase\<close>

lemma ceil_le_words:
  fixes n k len :: nat
  assumes "0 < k" "n \<le> len * k"
  shows "((n + k - 1) div k) * k \<le> len * k"
proof -
  have "n + k - 1 \<le> len * k + (k - 1)" using assms by linarith
  then have "(n + k - 1) div k \<le> (len * k + (k - 1)) div k" by (rule div_le_mono)
  also have "(len * k + (k - 1)) div k = len"
    by (rule div_mod_unique_nat(1)) (use assms(1) in simp)
  finally show ?thesis by simp
qed

lemma word_pred_div_self: "(x - 1) div x = (0 :: 's::len word)"
proof (cases "x = 0")
  case True
  then show ?thesis by simp
next
  case False
  then have "unat (x - 1) < unat x" by (rule measure_unat)
  then have "x - 1 < x" by (simp only: word_less_nat_alt)
  then show ?thesis by (rule div_word_less)
qed

lemma resize_zero:
  fixes bv :: "('a::len word, 's::len word) bitvector"
  shows "resize junk bv 0 = \<lparr>mContainer = [], mFreeBitCount = 0\<rparr>"
  by (simp add: resize_def Let_def vector_resize_def word_pred_div_self)

lemma resize_shrink:
  fixes bv :: "('a::len word, 's::len word) bitvector" and n :: "'s word"
  assumes "wellformed bv" "unat n \<le> unat (size_bv bv)"
  shows "wellformed (resize junk bv n)"
    and "\<And>j. j < unat n \<Longrightarrow> bit_at (mContainer (resize junk bv n)) j = bit_at (mContainer bv) j"
    and "length (mContainer (resize junk bv n)) \<le> length (mContainer bv)"
proof -
  let ?k = "LENGTH('a)"
  let ?cap = "length (mContainer bv) * ?k"
  have cap: "unat n \<le> ?cap"
    using assms(2) size_bv_le_capacity[OF assms(1)] by (rule order_trans)
  have capb: "?cap < 2 ^ (LENGTH('s) - 1)" using assms(1) by (simp add: wellformed_def)
  have "((unat n + ?k - 1) div ?k) * ?k \<le> ?cap"
    by (rule ceil_le_words[OF _ cap]) simp
  then have c: "((unat n + ?k - 1) div ?k) * ?k < 2 ^ (LENGTH('s) - 1)"
    using capb by (rule order_le_less_trans)
  have all: "wellformed (resize junk bv n)
      \<and> (\<forall>j<unat n. bit_at (mContainer (resize junk bv n)) j = bit_at (mContainer bv) j)
      \<and> length (mContainer (resize junk bv n)) \<le> length (mContainer bv)"
  proof (cases "mContainer bv = []")
    case True
    then have n0: "n = 0" using cap by (simp add: unat_0_iff)
    have e: "resize junk bv 0 = \<lparr>mContainer = [], mFreeBitCount = 0 :: 's word\<rparr>"
      by (rule resize_zero)
    show ?thesis by (simp add: n0 e wellformed_def)
  next
    case False
    have kh: "?k < 2 ^ (LENGTH('s) - 1)" by (rule wellformed_kbound[OF assms(1) False])
    have k: "?k < 2 ^ LENGTH('s)" using kh by (rule below_half)
    have "(2::nat) ^ LENGTH('s) = 2 ^ (LENGTH('s) - 1) + 2 ^ (LENGTH('s) - 1)"
      by (metis Suc_pred' len_gt_0 mult_2 power_Suc diff_Suc_1 One_nat_def)
    then have r: "unat n + ?k - 1 < 2 ^ LENGTH('s)"
      using cap capb kh by linarith
    note g = resize_general[OF k r c, where junk = junk and bv = bv]
    have "bit_at (mContainer (resize junk bv n)) j = bit_at (mContainer bv) j" if "j < unat n" for j
    proof -
      have "j < ?cap" using that cap by (rule order_less_le_trans)
      then show ?thesis using that by (rule g(4))
    qed
    moreover have "length (mContainer (resize junk bv n)) * ?k \<le> ?cap"
      unfolding g(2) by (rule ceil_le_words[OF _ cap]) simp
    then have "length (mContainer (resize junk bv n)) \<le> length (mContainer bv)"
      by simp
    ultimately show ?thesis using g(1) by simp
  qed
  show "wellformed (resize junk bv n)" using all by simp
  show "bit_at (mContainer (resize junk bv n)) j = bit_at (mContainer bv) j" if "j < unat n" for j
    using all that by simp
  show "length (mContainer (resize junk bv n)) \<le> length (mContainer bv)" using all by simp
qed






section \<open>Writing one bit\<close>

subsection \<open>set\<close>

lemma bits_of_update:
  fixes bv :: "('a::len word, 's::len word) bitvector"
  assumes "length c' = length (mContainer bv)"
    and "\<And>j. bit_at c' j = (if j = i then v else bit_at (mContainer bv) j)"
  shows "size_bv (bv\<lparr>mContainer := c'\<rparr>) = size_bv bv"
    and "bits_of (bv\<lparr>mContainer := c'\<rparr>) = (bits_of bv)[i := v]"
    and "wellformed bv \<Longrightarrow> wellformed (bv\<lparr>mContainer := c'\<rparr>)"
proof -
  show s: "size_bv (bv\<lparr>mContainer := c'\<rparr>) = size_bv bv"
    using assms(1) by (simp add: size_bv_def vector_size_def)
  show "bits_of (bv\<lparr>mContainer := c'\<rparr>) = (bits_of bv)[i := v]"
  proof (rule bits_of_eqI)
    show "unat (size_bv (bv\<lparr>mContainer := c'\<rparr>)) = length ((bits_of bv)[i := v])"
      by (simp add: s length_bits_of)
    fix j assume "j < length ((bits_of bv)[i := v])"
    then have j: "j < unat (size_bv bv)" by (simp add: length_bits_of)
    show "bit_at (mContainer (bv\<lparr>mContainer := c'\<rparr>)) j = (bits_of bv)[i := v] ! j"
      using j by (simp add: assms(2) nth_list_update length_bits_of nth_bits_of)
  qed
  show "wellformed (bv\<lparr>mContainer := c'\<rparr>)" if "wellformed bv"
    using that assms(1) by (auto simp: wellformed_def)
qed

lemma set_bv_inside:
  fixes bv :: "('a::len word, 's::len word) bitvector" and n :: "'s word"
  assumes "wellformed bv" "n < size_bv bv"
  shows "\<exists>bv'. set_bv junk bv n v = Some bv' \<and> wellformed bv'
           \<and> size_bv bv' = size_bv bv \<and> bits_of bv' = (bits_of bv)[unat n := v]"
proof -
  note i = size_bv_index[OF assms]
  have a: "iter_add (begin_bv bv) (sint n) = iter_at (unat n)"
    by (rule iter_add_begin_index[OF i(2)])
  obtain c' where c': "ref_assign (mContainer bv) (iter_at (unat n)) v = Some c'"
      "length c' = length (mContainer bv)"
    and b: "\<And>j. bit_at c' j = (if j = unat n then v else bit_at (mContainer bv) j)"
    using ref_assign_at[OF i(3), of v] by blast
  have "\<not> size_bv bv \<le> n" using assms(2) by simp
  then have run: "set_bv junk bv n v = Some (bv\<lparr>mContainer := c'\<rparr>)"
    by (simp add: set_bv_def Let_def a c')
  show ?thesis
    using run bits_of_update[OF c'(2) b] assms(1) by simp
qed

lemma unat_plus_one:
  fixes n :: "'s::len word"
  assumes "unat n + 1 < 2 ^ LENGTH('s)"
  shows "unat (n + 1) = unat n + 1"
proof -
  have "unat n + unat (1 :: 's word) < 2 ^ LENGTH('s)" using assms by simp
  then have "unat (n + 1) = unat n + unat (1 :: 's word)" by (rule unat_add_lem[THEN iffD1])
  then show ?thesis by simp
qed

lemma set_bv_outside:
  fixes bv :: "('a::len word, 's::len word) bitvector" and n :: "'s word"
  assumes "wellformed bv" "size_bv bv \<le> n" "unat n + 1 + LENGTH('a) \<le> 2 ^ (LENGTH('s) - 1)"
  shows "\<exists>bv'. set_bv junk bv n v = Some bv' \<and> wellformed bv'
           \<and> size_bv bv' = n + 1
           \<and> bits_of bv' = (bits_of (resize junk bv (n + 1)))[unat n := v]
           \<and> length (bits_of bv') = unat n + 1
           \<and> (\<forall>j<unat (size_bv bv). bits_of bv' ! j = bits_of bv ! j)
           \<and> (\<forall>j. unat (size_bv bv) \<le> j \<and> j < unat n \<and> j < length (mContainer bv) * LENGTH('a)
                  \<longrightarrow> bits_of bv' ! j = bit_at (mContainer bv) j)
           \<and> (\<forall>j. length (mContainer bv) * LENGTH('a) \<le> j \<and> j < unat n
                  \<longrightarrow> bits_of bv' ! j = bit (junk (j div LENGTH('a))) (j mod LENGTH('a)))"
proof -
  let ?k = "LENGTH('a)"
  let ?bv1 = "resize junk bv (n + 1)"
  let ?s = "unat (size_bv bv)"
  have h: "(2::nat) ^ (LENGTH('s) - 1) < 2 ^ LENGTH('s)" by (rule half_range)
  have "unat n + 1 < 2 ^ LENGTH('s)" using assms(3) h by linarith
  then have u1: "unat (n + 1) = unat n + 1" by (rule unat_plus_one)
  have r: "unat (n + 1) + ?k \<le> 2 ^ (LENGTH('s) - 1)" unfolding u1 by (rule assms(3))
  note rs = resize_wellformed[OF r, where junk = junk and bv = bv]
  have sz1: "size_bv ?bv1 = n + 1" by (rule size_bv_resize)
  have nh: "unat n < 2 ^ (LENGTH('s) - 1)" using assms(3) by linarith
  have a: "iter_add (begin_bv ?bv1) (sint n) = iter_at (unat n)"
    by (rule iter_add_begin_index[OF nh])
  have "unat n < unat (size_bv ?bv1)" by (simp add: sz1 u1)
  also have "\<dots> \<le> length (mContainer ?bv1) * ?k" by (rule size_bv_le_capacity[OF rs(1)])
  finally have nc: "unat n < length (mContainer ?bv1) * ?k" .
  obtain c' where c': "ref_assign (mContainer ?bv1) (iter_at (unat n)) v = Some c'"
      "length c' = length (mContainer ?bv1)"
    and b: "\<And>j. bit_at c' j = (if j = unat n then v else bit_at (mContainer ?bv1) j)"
    using ref_assign_at[OF nc, of v] by blast
  let ?bv' = "?bv1\<lparr>mContainer := c'\<rparr>"
  have run: "set_bv junk bv n v = Some ?bv'"
    using assms(2) by (simp add: set_bv_def Let_def a c')
  note up = bits_of_update[OF c'(2) b]
  have sle: "?s \<le> unat n" using assms(2) by (simp only: word_le_nat_alt)
  have l1: "length (bits_of ?bv1) = unat n + 1" by (simp add: length_bits_of sz1 u1)
  have old: "bits_of ?bv' ! j = bits_of bv ! j" if "j < ?s" for j
  proof -
    have jc: "j < length (mContainer bv) * ?k"
      using that size_bv_le_capacity[OF assms(1)] by (rule order_less_le_trans)
    have jn: "j < unat (n + 1)" unfolding u1 using that sle by linarith
    have "bits_of ?bv' ! j = bits_of ?bv1 ! j"
      using that sle by (simp add: up(2))
    also have "\<dots> = bit_at (mContainer ?bv1) j" using jn by (simp add: nth_bits_of sz1)
    also have "\<dots> = bit_at (mContainer bv) j" by (rule rs(4)[OF jc jn])
    also have "\<dots> = bits_of bv ! j" using that by (simp add: nth_bits_of)
    finally show ?thesis .
  qed
  have stale: "bits_of ?bv' ! j = bit_at (mContainer bv) j"
    if "j < unat n" "j < length (mContainer bv) * ?k" for j
  proof -
    have jn: "j < unat (n + 1)" unfolding u1 using that(1) by linarith
    have "bits_of ?bv' ! j = bits_of ?bv1 ! j" using that(1) by (simp add: up(2))
    also have "\<dots> = bit_at (mContainer ?bv1) j" using jn by (simp add: nth_bits_of sz1)
    also have "\<dots> = bit_at (mContainer bv) j" by (rule rs(4)[OF that(2) jn])
    finally show ?thesis .
  qed
  have fresh: "bits_of ?bv' ! j = bit (junk (j div ?k)) (j mod ?k)"
    if "length (mContainer bv) * ?k \<le> j" "j < unat n" for j
  proof -
    have jn: "j < unat (n + 1)" unfolding u1 using that(2) by linarith
    have jc1: "j < length (mContainer ?bv1) * ?k" using that(2) nc by linarith
    have lo: "length (mContainer bv) \<le> j div ?k"
      using that(1) by (metis div_le_mono div_mult_self_is_m len_gt_0)
    have hi: "j div ?k < length (mContainer ?bv1)"
      using jc1 by (simp add: less_mult_imp_div_less)
    have w: "mContainer ?bv1 ! (j div ?k) = junk (j div ?k)"
      using lo hi by (simp add: resize_def Let_def nth_vector_resize_new length_vector_resize)
    have "bits_of ?bv' ! j = bits_of ?bv1 ! j" using that(2) by (simp add: up(2))
    also have "\<dots> = bit_at (mContainer ?bv1) j" using jn by (simp add: nth_bits_of sz1)
    also have "\<dots> = bit (junk (j div ?k)) (j mod ?k)" by (simp add: bit_at_def w)
    finally show ?thesis .
  qed
  have "size_bv ?bv' = n + 1" by (simp only: up(1) sz1)
  moreover have "length (bits_of ?bv') = unat n + 1" by (simp add: up(2) l1)
  ultimately show ?thesis
    using run up(2) up(3)[OF rs(1)] old stale fresh by auto
qed

text \<open>
  Claim C7, amended. On a well-formed sequence, \<^verbatim>\<open>set(n, value)\<close> with \<open>n < size()\<close> writes
  \<open>value\<close> at index \<open>n\<close> and leaves the size and all other bits unchanged. With
  \<open>n \<ge> size()\<close> and \<open>n + 1 + kBitCount \<le> 2 ^ (w - 1)\<close>, \<open>w\<close> the width of \<^verbatim>\<open>size_type\<close>, it
  first grows the sequence to exactly \<open>n + 1\<close> bits by \<^verbatim>\<open>resize(n + 1)\<close> and then writes
  \<open>value\<close> at index \<open>n\<close>: the former bits are unchanged, and the bits between the old size
  and \<open>n\<close> are not filled: those in the old last word keep what that word held, those
  in created words are what the word store put there.
\<close>

theorem set_writes_and_grows:
  fixes bv :: "('a::len word, 's::len word) bitvector" and n :: "'s word"
  assumes "wellformed bv"
  shows "(n < size_bv bv \<longrightarrow>
            (\<exists>bv'. set_bv junk bv n v = Some bv'
                \<and> size_bv bv' = size_bv bv
                \<and> bits_of bv' = (bits_of bv)[unat n := v]))
       \<and> (size_bv bv \<le> n \<and> unat n + 1 + LENGTH('a) \<le> 2 ^ (LENGTH('s) - 1) \<longrightarrow>
            (\<exists>bv'. set_bv junk bv n v = Some bv'
                \<and> size_bv bv' = n + 1
                \<and> bits_of bv' = (bits_of (resize junk bv (n + 1)))[unat n := v]
                \<and> length (bits_of bv') = unat n + 1
                \<and> bits_of bv' ! unat n = v
                \<and> (\<forall>j<unat (size_bv bv). bits_of bv' ! j = bits_of bv ! j)
                \<and> (\<forall>j. unat (size_bv bv) \<le> j \<and> j < unat n \<and> j < length (mContainer bv) * LENGTH('a)
                       \<longrightarrow> bits_of bv' ! j = bit_at (mContainer bv) j)
                \<and> (\<forall>j. length (mContainer bv) * LENGTH('a) \<le> j \<and> j < unat n
                       \<longrightarrow> bits_of bv' ! j = bit (junk (j div LENGTH('a))) (j mod LENGTH('a)))))"
proof (intro conjI impI)
  assume "n < size_bv bv"
  from set_bv_inside[OF assms this, of junk v]
  show "\<exists>bv'. set_bv junk bv n v = Some bv' \<and> size_bv bv' = size_bv bv
          \<and> bits_of bv' = (bits_of bv)[unat n := v]"
    by blast
next
  assume a: "size_bv bv \<le> n \<and> unat n + 1 + LENGTH('a) \<le> 2 ^ (LENGTH('s) - 1)"
  then have 1: "size_bv bv \<le> n" and 2: "unat n + 1 + LENGTH('a) \<le> 2 ^ (LENGTH('s) - 1)"
    by simp_all
  obtain bv' where r: "set_bv junk bv n v = Some bv'" "size_bv bv' = n + 1"
      "bits_of bv' = (bits_of (resize junk bv (n + 1)))[unat n := v]"
      "length (bits_of bv') = unat n + 1"
      "\<forall>j<unat (size_bv bv). bits_of bv' ! j = bits_of bv ! j"
      "\<forall>j. unat (size_bv bv) \<le> j \<and> j < unat n \<and> j < length (mContainer bv) * LENGTH('a)
            \<longrightarrow> bits_of bv' ! j = bit_at (mContainer bv) j"
      "\<forall>j. length (mContainer bv) * LENGTH('a) \<le> j \<and> j < unat n
            \<longrightarrow> bits_of bv' ! j = bit (junk (j div LENGTH('a))) (j mod LENGTH('a))"
    using set_bv_outside[OF assms 1 2, of junk v] by blast
  have "unat n < length (bits_of (resize junk bv (n + 1)))"
    using r(3,4) by (metis length_list_update less_add_one)
  then have "bits_of bv' ! unat n = v" by (simp add: r(3))
  with r show "\<exists>bv'. set_bv junk bv n v = Some bv'
      \<and> size_bv bv' = n + 1
      \<and> bits_of bv' = (bits_of (resize junk bv (n + 1)))[unat n := v]
      \<and> length (bits_of bv') = unat n + 1
      \<and> bits_of bv' ! unat n = v
      \<and> (\<forall>j<unat (size_bv bv). bits_of bv' ! j = bits_of bv ! j)
      \<and> (\<forall>j. unat (size_bv bv) \<le> j \<and> j < unat n \<and> j < length (mContainer bv) * LENGTH('a)
             \<longrightarrow> bits_of bv' ! j = bit_at (mContainer bv) j)
      \<and> (\<forall>j. length (mContainer bv) * LENGTH('a) \<le> j \<and> j < unat n
             \<longrightarrow> bits_of bv' ! j = bit (junk (j div LENGTH('a))) (j mod LENGTH('a)))"
    by blast
qed

text \<open>The witness is the sequence \<open>[1, 1]\<close> left by three \<^verbatim>\<open>pushBack(true)\<close> and one
  \<^verbatim>\<open>popBack()\<close>: \<^verbatim>\<open>set(5, false)\<close> gives \<open>[1, 1, 1, 0, 0, 0]\<close>, bit 2 being the bit that was
  popped.\<close>

theorem set_writes_and_grows_witness:
  "wellformed \<lparr>mContainer = [7 :: 32 word], mFreeBitCount = 30 :: 64 word\<rparr>
   \<and> bits_of \<lparr>mContainer = [7 :: 32 word], mFreeBitCount = 30 :: 64 word\<rparr> = [True, True]
   \<and> (\<exists>bv'. set_bv (\<lambda>_. 0) \<lparr>mContainer = [7 :: 32 word], mFreeBitCount = 30 :: 64 word\<rparr> 5 False
               = Some bv'
          \<and> size_bv bv' = 6
          \<and> bits_of bv' = [True, True, True, False, False, False])
   \<and> (\<exists>bv'. set_bv (\<lambda>_. 0) \<lparr>mContainer = [7 :: 32 word], mFreeBitCount = 30 :: 64 word\<rparr> 0 False
               = Some bv'
          \<and> size_bv bv' = 2
          \<and> bits_of bv' = [False, True])"
proof -
  let ?bv = "\<lparr>mContainer = [7 :: 32 word], mFreeBitCount = 30 :: 64 word\<rparr>"
  have w: "wellformed ?bv" by (simp add: wellformed_def)
  have s: "size_bv ?bv = 2" by (simp add: size_bv_def vector_size_def)
  have b: "bits_of ?bv = [True, True]" by code_simp
  have r: "bits_of (resize (\<lambda>_. 0) ?bv 6) = [True, True, True, False, False, False]" by code_simp
  have g: "size_bv ?bv \<le> 5 \<and> unat (5 :: 64 word) + 1 + LENGTH(32) \<le> 2 ^ (LENGTH(64) - 1)"
    by (simp add: s)
  have l: "(0 :: 64 word) < size_bv ?bv" by (simp add: s)
  show ?thesis
    using set_writes_and_grows[OF w, of 5 "\<lambda>_. 0" False] set_writes_and_grows[OF w, of 0 "\<lambda>_. 0" False]
      w g l
    by (auto simp: b s r)
qed

text \<open>The claim as stated, for every index: with a 64-bit \<^verbatim>\<open>size_type\<close> and \<open>n = 2^64 - 2\<close>
  on the empty sequence, \<open>n + 1 + kBitCount - 1\<close> wraps in \<^verbatim>\<open>resize(n + 1)\<close>, which leaves
  no word, and the write at \<^verbatim>\<open>begin() + (difference_type)n\<close> goes two bits before the
  store.\<close>

theorem set_at_size_max_counterexample:
  "mContainer (resize zero_fill (bitvector_default :: (32 word, 64 word) bitvector) (- 2 + 1)) = []
   \<and> iter_add (begin_bv (bitvector_default :: (32 word, 64 word) bitvector)) (sint (- 2 :: 64 word))
       = Reference (- 1) 30
   \<and> set_bv zero_fill (bitvector_default :: (32 word, 64 word) bitvector) (- 2) True = None"
  by code_simp

section \<open>Resizing with a fill value\<close>

subsection \<open>resize with a fill value\<close>

lemma min_Suc_pred: "0 < b \<Longrightarrow> min (Suc a) b = Suc (min a (b - 1))"
  by (cases b) simp_all

lemma resize_fill_loop_wellformed:
  fixes bv :: "('a::len word, 's::len word) bitvector" and newbits :: "'s word"
  assumes "wellformed bv"
  shows "\<exists>bv2 nb2. resize_fill_loop junk bv newbits v = Some (bv2, nb2)
           \<and> wellformed bv2
           \<and> length (mContainer bv2) = length (mContainer bv)
           \<and> unat (mFreeBitCount bv2) = unat (mFreeBitCount bv) - min (unat (mFreeBitCount bv)) (unat newbits)
           \<and> unat nb2 = unat newbits - min (unat (mFreeBitCount bv)) (unat newbits)
           \<and> unat (size_bv bv2) = unat (size_bv bv) + min (unat (mFreeBitCount bv)) (unat newbits)
           \<and> (\<forall>j<length (mContainer bv) * LENGTH('a).
                 bit_at (mContainer bv2) j
                 = (if unat (size_bv bv) \<le> j
                       \<and> j < unat (size_bv bv) + min (unat (mFreeBitCount bv)) (unat newbits)
                    then v else bit_at (mContainer bv) j))"
  using assms
proof (induction "unat (mFreeBitCount bv)" arbitrary: bv newbits)
  case 0
  then have "mFreeBitCount bv = 0" by (simp add: unat_0_iff)
  then show ?case using "0.prems" by (subst resize_fill_loop.simps) auto
next
  case (Suc f)
  let ?k = "LENGTH('a)"
  let ?s = "unat (size_bv bv)"
  have fne: "mFreeBitCount bv \<noteq> 0" using Suc.hyps(2) by (metis Zero_not_Suc unat_0)
  show ?case
  proof (cases "newbits = 0")
    case True
    then show ?thesis using Suc.prems by (subst resize_fill_loop.simps) auto
  next
    case False
    have g: "mFreeBitCount bv = 0 \<longrightarrow> (length (mContainer bv) + 1) * ?k < 2 ^ (LENGTH('s) - 1)"
      using fne by simp
    obtain bv1 where p: "pushBack_value junk bv v = Some bv1" "wellformed bv1"
        "mFreeBitCount bv1 = mFreeBitCount (pushBack junk bv)"
        "length (mContainer bv1) = length (mContainer (pushBack junk bv))"
        "unat (size_bv bv1) = ?s + 1"
      and pb: "\<forall>j. j < length (mContainer bv) * ?k \<longrightarrow>
                 bit_at (mContainer bv1) j = (if j = ?s then v else bit_at (mContainer bv) j)"
      using pushBack_value_wellformed[OF Suc.prems g, of junk v] by blast
    have f1: "mFreeBitCount bv1 = mFreeBitCount bv - 1" using fne by (simp add: p(3) pushBack_free)
    have uf1: "unat (mFreeBitCount bv1) = f"
      unfolding f1 using fne Suc.hyps(2) by (simp add: unat_minus_one)
    have l1: "length (mContainer bv1) = length (mContainer bv)"
      using fne by (simp add: p(4) pushBack_free)
    have un: "unat (newbits - 1) = unat newbits - 1" using False by (rule unat_minus_one)
    have np: "0 < unat newbits" using False by (simp add: unat_gt_0)
    obtain bv2 nb2 where r: "resize_fill_loop junk bv1 (newbits - 1) v = Some (bv2, nb2)"
        "wellformed bv2" "length (mContainer bv2) = length (mContainer bv1)"
        "unat (mFreeBitCount bv2) = unat (mFreeBitCount bv1) - min (unat (mFreeBitCount bv1)) (unat (newbits - 1))"
        "unat nb2 = unat (newbits - 1) - min (unat (mFreeBitCount bv1)) (unat (newbits - 1))"
        "unat (size_bv bv2) = unat (size_bv bv1) + min (unat (mFreeBitCount bv1)) (unat (newbits - 1))"
      and rb: "\<forall>j<length (mContainer bv1) * ?k.
                 bit_at (mContainer bv2) j
                 = (if unat (size_bv bv1) \<le> j
                       \<and> j < unat (size_bv bv1) + min (unat (mFreeBitCount bv1)) (unat (newbits - 1))
                    then v else bit_at (mContainer bv1) j)"
      using Suc.hyps(1)[OF uf1[symmetric] p(2), of "newbits - 1"] by blast
    have run: "resize_fill_loop junk bv newbits v = Some (bv2, nb2)"
      by (subst resize_fill_loop.simps) (use fne False p(1) r(1) in simp)
    have m: "min (unat (mFreeBitCount bv)) (unat newbits) = Suc (min f (unat newbits - 1))"
      unfolding Suc.hyps(2)[symmetric] using np by (rule min_Suc_pred)
    have m1: "min (unat (mFreeBitCount bv1)) (unat (newbits - 1)) = min f (unat newbits - 1)"
      by (simp only: uf1 un)
    have bits: "bit_at (mContainer bv2) j
                 = (if ?s \<le> j \<and> j < ?s + min (unat (mFreeBitCount bv)) (unat newbits)
                    then v else bit_at (mContainer bv) j)"
      if j: "j < length (mContainer bv) * ?k" for j
    proof -
      have j1: "j < length (mContainer bv1) * ?k" using j by (simp only: l1)
      have e: "bit_at (mContainer bv2) j
               = (if ?s + 1 \<le> j \<and> j < ?s + 1 + min f (unat newbits - 1)
                  then v else bit_at (mContainer bv1) j)"
        using rb j1 unfolding m1 by (simp only: p(5))
      have e1: "bit_at (mContainer bv1) j = (if j = ?s then v else bit_at (mContainer bv) j)"
        using pb j by blast
      show ?thesis
        unfolding m e e1 by (cases "j = ?s") auto
    qed
    have a4: "unat (mFreeBitCount bv2) = f - min f (unat newbits - 1)"
      using r(4) unfolding m1 by (simp only: uf1)
    have a5: "unat nb2 = (unat newbits - 1) - min f (unat newbits - 1)"
      using r(5) unfolding m1 by (simp only: un)
    have a6: "unat (size_bv bv2) = (?s + 1) + min f (unat newbits - 1)"
      using r(6) unfolding m1 by (simp only: p(5))
    have m': "min (Suc f) (unat newbits) = Suc (min f (unat newbits - 1))"
      using np by (rule min_Suc_pred)
    have "unat (mFreeBitCount bv2) = unat (mFreeBitCount bv) - min (unat (mFreeBitCount bv)) (unat newbits)"
      unfolding a4 Suc.hyps(2)[symmetric] m' by simp
    moreover have "unat nb2 = unat newbits - min (unat (mFreeBitCount bv)) (unat newbits)"
      unfolding m a5 by simp
    moreover have "unat (size_bv bv2) = ?s + min (unat (mFreeBitCount bv)) (unat newbits)"
      unfolding m a6 by simp
    moreover have "length (mContainer bv2) = length (mContainer bv)"
      by (simp only: r(3) l1)
    ultimately show ?thesis using run r(2) bits by blast
  qed
qed

lemma unat_wrapped_diff:
  fixes n m :: "'s::len word"
  assumes "n < m" "unat m < 2 ^ (LENGTH('s) - 1)"
  shows "2 ^ (LENGTH('s) - 1) \<le> unat (n - m)"
proof (rule ccontr)
  assume "\<not> 2 ^ (LENGTH('s) - 1) \<le> unat (n - m)"
  then have x: "unat (n - m) < 2 ^ (LENGTH('s) - 1)" by simp
  have "(2::nat) ^ LENGTH('s) = 2 ^ (LENGTH('s) - 1) + 2 ^ (LENGTH('s) - 1)"
    by (metis Suc_pred' len_gt_0 mult_2 power_Suc diff_Suc_1 One_nat_def)
  then have "unat (n - m) + unat m < 2 ^ LENGTH('s)" using x assms(2) by linarith
  then have "unat ((n - m) + m) = unat (n - m) + unat m" by (rule unat_add_lem[THEN iffD1])
  then have "unat m \<le> unat n" by simp
  moreover have "unat n < unat m" using assms(1) by (simp only: word_less_nat_alt)
  ultimately show False by simp
qed

lemma resize_as_fill:
  fixes bv :: "('a::len word, 's::len word) bitvector"
  shows "\<lparr>mContainer = vector_resize_value (mContainer bv)
                         ((n + of_nat LENGTH('a) - 1) div of_nat LENGTH('a)) e,
          mFreeBitCount = ((n + of_nat LENGTH('a) - 1) div of_nat LENGTH('a)) * of_nat LENGTH('a) - n\<rparr>
         = resize (\<lambda>_. e) bv n"
  by (simp add: resize_def Let_def vector_resize_value_def)

lemma bit_fill_element:
  "i < LENGTH('a) \<Longrightarrow> bit (if v then NOT 0 else 0 :: 'a::len word) i = v"
  by (simp add: bit_simps)

lemma resize_value_at:
  fixes bv :: "('a::len word, 's::len word) bitvector" and n :: "'s word"
  assumes "wellformed bv"
    and "length (mContainer bv) * LENGTH('a) < unat n \<longrightarrow> unat n + LENGTH('a) \<le> 2 ^ (LENGTH('s) - 1)"
  shows "\<exists>bv'. resize_value junk bv n v = Some bv' \<and> wellformed bv'
           \<and> size_bv bv' = n
           \<and> bits_of bv' = take (unat n) (bits_of bv) @ replicate (unat n - unat (size_bv bv)) v
           \<and> (\<forall>i. length (mContainer bv) \<le> i \<and> i < length (mContainer bv')
                  \<longrightarrow> mContainer bv' ! i = (if v then NOT 0 else 0))"
proof -
  let ?k = "LENGTH('a)"
  let ?s = "unat (size_bv bv)"
  let ?c = "mContainer bv"
  let ?cap = "length ?c * ?k"
  let ?f = "unat (mFreeBitCount bv)"
  let ?e = "if v then NOT 0 else 0 :: 'a word"
  let ?xs = "take (unat n) (bits_of bv) @ replicate (unat n - ?s) v"
  have scap: "?s = ?cap - ?f" by (rule size_bv_unat[OF assms(1)])
  have fle: "?f \<le> ?cap" by (rule wellformed_free_le[OF assms(1)])
  show ?thesis
  proof (cases "n < size_bv bv")
    case False
    then have sn: "?s \<le> unat n" by (simp add: word_less_nat_alt)
    have "size_bv bv \<le> n" using False by simp
    then have unb: "unat (n - size_bv bv) = unat n - ?s" by (rule unat_sub)
    let ?t = "min ?f (unat n - ?s)"
    obtain bv2 nb2 where r: "resize_fill_loop junk bv (n - size_bv bv) v = Some (bv2, nb2)"
        "wellformed bv2" "length (mContainer bv2) = length ?c"
        "unat (mFreeBitCount bv2) = ?f - ?t" "unat nb2 = (unat n - ?s) - ?t"
        "unat (size_bv bv2) = ?s + ?t"
      and rb: "\<forall>j<?cap. bit_at (mContainer bv2) j
                 = (if ?s \<le> j \<and> j < ?s + ?t then v else bit_at ?c j)"
      using resize_fill_loop_wellformed[OF assms(1), of junk "n - size_bv bv" v]
      unfolding unb by blast
    have lx: "length ?xs = unat n" using sn by (simp add: length_bits_of)
    show ?thesis
    proof (cases "unat n - ?s \<le> ?f")
      case True
      then have t: "?t = unat n - ?s" by simp
      have "unat nb2 = 0" using r(5) unfolding t by simp
      then have nb0: "nb2 = 0" by (simp only: unat_0_iff)
      have run: "resize_value junk bv n v = Some bv2"
        using False by (simp add: resize_value_def Let_def r(1) nb0)
      have "unat (size_bv bv2) = unat n" using r(6) sn unfolding t by simp
      then have sz: "size_bv bv2 = n" by (simp only: word_unat_eq_iff)
      have ncap: "unat n \<le> ?cap" using True scap fle sn by linarith
      have "bit_at (mContainer bv2) j = ?xs ! j" if j: "j < length ?xs" for j
      proof -
        have jn: "j < unat n" using j lx by simp
        then have jc: "j < ?cap" using ncap by linarith
        have e: "bit_at (mContainer bv2) j = (if ?s \<le> j \<and> j < ?s + ?t then v else bit_at ?c j)"
          using rb jc by blast
        show ?thesis
        proof (cases "j < ?s")
          case True
          then show ?thesis using sn by (simp add: e nth_append length_bits_of nth_bits_of)
        next
          case F: False
          then have "?s \<le> j \<and> j < ?s + ?t" using jn sn unfolding t by linarith
          then have "bit_at (mContainer bv2) j = v" by (simp only: e if_True simp_thms)
          then show ?thesis using F sn jn by (simp add: nth_append length_bits_of)
        qed
      qed
      then have "bits_of bv2 = ?xs"
        using lx sz by (intro bits_of_eqI) simp_all
      then show ?thesis using run r(2) sz r(3) by auto
    next
      case F: False
      then have t: "?t = ?f" by simp
      have nbp: "0 < unat nb2" using r(5) F unfolding t by linarith
      then have nbne: "nb2 \<noteq> 0" by (simp add: unat_gt_0)
      let ?bv3 = "resize (\<lambda>_. ?e) bv2 n"
      have run: "resize_value junk bv n v = Some ?bv3"
        using False nbne by (simp add: resize_value_def Let_def r(1) resize_as_fill)
      have "?cap < unat n" using F scap fle sn by linarith
      then have rng: "unat n + ?k \<le> 2 ^ (LENGTH('s) - 1)" using assms(2) by simp
      note rs = resize_wellformed[OF rng, where junk = "\<lambda>_. ?e" and bv = bv2]
      have sz: "size_bv ?bv3 = n" by (rule size_bv_resize)
      have s2: "?s + ?f = ?cap" using scap fle by linarith
      have "bit_at (mContainer ?bv3) j = ?xs ! j" if j: "j < length ?xs" for j
      proof -
        have jn: "j < unat n" using j lx by simp
        show ?thesis
        proof (cases "j < ?cap")
          case True
          then have j2: "j < length (mContainer bv2) * ?k" by (simp only: r(3))
          have e: "bit_at (mContainer bv2) j = (if ?s \<le> j \<and> j < ?s + ?t then v else bit_at ?c j)"
            using rb True by blast
          have e3: "bit_at (mContainer ?bv3) j = bit_at (mContainer bv2) j"
            by (rule rs(4)[OF j2 jn])
          show ?thesis
          proof (cases "j < ?s")
            case T: True
            then show ?thesis using sn by (simp add: e3 e nth_append length_bits_of nth_bits_of)
          next
            case F2: False
            then have "?s \<le> j \<and> j < ?s + ?t" using True s2 unfolding t by linarith
            then have "bit_at (mContainer bv2) j = v" by (simp only: e if_True simp_thms)
            then show ?thesis using F2 sn jn by (simp add: e3 nth_append length_bits_of)
          qed
        next
          case F3: False
          then have jc: "?cap \<le> j" by simp
          have lo: "length (mContainer bv2) \<le> j div ?k"
            unfolding r(3) using jc by (metis div_le_mono div_mult_self_is_m len_gt_0)
          have "j < unat (size_bv ?bv3)" using jn by (simp only: sz)
          also have "\<dots> \<le> length (mContainer ?bv3) * ?k" by (rule size_bv_le_capacity[OF rs(1)])
          finally have hi: "j div ?k < length (mContainer ?bv3)"
            by (simp add: less_mult_imp_div_less)
          have w: "mContainer ?bv3 ! (j div ?k) = ?e"
            using lo hi by (simp add: resize_def Let_def nth_vector_resize_new length_vector_resize)
          have "bit_at (mContainer ?bv3) j = bit ?e (j mod ?k)"
            by (simp only: bit_at_def w)
          also have "\<dots> = v" by (rule bit_fill_element) simp
          finally have bv3: "bit_at (mContainer ?bv3) j = v" .
          have "\<not> j < ?s" using jc scap by linarith
          then show ?thesis using sn jn by (simp add: bv3 nth_append length_bits_of)
        qed
      qed
      then have b: "bits_of ?bv3 = ?xs"
        using lx sz by (intro bits_of_eqI) simp_all
      have "mContainer ?bv3 ! i = ?e" if "length ?c \<le> i" "i < length (mContainer ?bv3)" for i
        using that by (simp add: resize_def Let_def nth_vector_resize_new length_vector_resize r(3))
      then show ?thesis using run rs(1) sz b by auto
    qed
  next
    case True
    then have ns: "unat n < ?s" by (simp only: word_less_nat_alt)
    then have nle: "unat n \<le> ?s" by simp
    let ?bv1 = "resize junk bv n"
    note r1 = resize_shrink[OF assms(1) nle, where junk = junk]
    have sz1: "size_bv ?bv1 = n" by (rule size_bv_resize)
    let ?f1 = "unat (mFreeBitCount ?bv1)"
    let ?cap1 = "length (mContainer ?bv1) * ?k"
    have f1h: "?f1 < 2 ^ (LENGTH('s) - 1)"
      using wellformed_free_le[OF r1(1)] r1(1) by (simp add: wellformed_def)
    have big: "2 ^ (LENGTH('s) - 1) \<le> unat (n - size_bv bv)"
      using True size_bv_half[OF assms(1)] by (rule unat_wrapped_diff)
    have t: "min ?f1 (unat (n - size_bv bv)) = ?f1" using f1h big by simp
    obtain bv2 nb2 where r: "resize_fill_loop junk ?bv1 (n - size_bv bv) v = Some (bv2, nb2)"
        "wellformed bv2" "length (mContainer bv2) = length (mContainer ?bv1)"
        "unat nb2 = unat (n - size_bv bv) - ?f1"
        "unat (size_bv bv2) = unat (size_bv ?bv1) + ?f1"
      and rb: "\<forall>j<?cap1. bit_at (mContainer bv2) j
                 = (if unat (size_bv ?bv1) \<le> j \<and> j < unat (size_bv ?bv1) + ?f1
                    then v else bit_at (mContainer ?bv1) j)"
      using resize_fill_loop_wellformed[OF r1(1), of junk "n - size_bv bv" v]
      unfolding t by blast
    have "0 < unat nb2" using r(4) f1h big by linarith
    then have nbne: "nb2 \<noteq> 0" by (simp add: unat_gt_0)
    let ?bv3 = "resize (\<lambda>_. ?e) bv2 n"
    have run: "resize_value junk bv n v = Some ?bv3"
      using True nbne by (simp add: resize_value_def Let_def r(1) resize_as_fill)
    have n2: "unat n \<le> unat (size_bv bv2)" unfolding r(5) sz1 by simp
    note r3 = resize_shrink[OF r(2) n2, where junk = "\<lambda>_. ?e"]
    have sz: "size_bv ?bv3 = n" by (rule size_bv_resize)
    have lx: "length ?xs = unat n" using ns by (simp add: length_bits_of)
    have "bit_at (mContainer ?bv3) j = ?xs ! j" if j: "j < length ?xs" for j
    proof -
      have jn: "j < unat n" using j lx by simp
      have "j < unat (size_bv ?bv1)" using jn by (simp only: sz1)
      also have "\<dots> \<le> ?cap1" by (rule size_bv_le_capacity[OF r1(1)])
      finally have jc1: "j < ?cap1" .
      have nr: "\<not> (unat (size_bv ?bv1) \<le> j \<and> j < unat (size_bv ?bv1) + ?f1)"
        using jn unfolding sz1 by simp
      have "bit_at (mContainer ?bv3) j = bit_at (mContainer bv2) j" by (rule r3(2)[OF jn])
      also have "\<dots> = bit_at (mContainer ?bv1) j"
      proof -
        have "bit_at (mContainer bv2) j
              = (if unat (size_bv ?bv1) \<le> j \<and> j < unat (size_bv ?bv1) + ?f1
                 then v else bit_at (mContainer ?bv1) j)"
          using rb jc1 by blast
        then show ?thesis using nr by (simp only: if_False)
      qed
      also have "\<dots> = bit_at ?c j" by (rule r1(2)[OF jn])
      also have "\<dots> = ?xs ! j" using jn ns by (simp add: nth_append length_bits_of nth_bits_of)
      finally show ?thesis .
    qed
    then have b: "bits_of ?bv3 = ?xs"
      using lx sz by (intro bits_of_eqI) simp_all
    have "length (mContainer ?bv3) \<le> length ?c"
      using r3(3) r(3) r1(3) by linarith
    then show ?thesis using run r3(1) sz b by auto
  qed
qed

text \<open>
  Claim C6, amended. On a well-formed sequence of size \<open>oldSize\<close>, for every boolean \<open>v\<close>
  and every \<open>n\<close> that is within the bit capacity of the store or satisfies
  \<open>n + kBitCount \<le> 2 ^ (w - 1)\<close>, \<open>w\<close> the width of \<^verbatim>\<open>size_type\<close>, \<^verbatim>\<open>resize(n, v)\<close> returns
  with \<open>size() = n\<close>; the bits at indices below \<open>min oldSize n\<close> are unchanged, every bit
  at an index in \<open>[oldSize, n)\<close> reads \<open>v\<close>, and every word appended to the store is
  all-\<open>v\<close>. The bits are those that \<^verbatim>\<open>operator[]\<close> reads.
\<close>

theorem resize_value_fills:
  fixes bv :: "('a::len word, 's::len word) bitvector" and n :: "'s word"
  assumes "wellformed bv"
    and "length (mContainer bv) * LENGTH('a) < unat n \<longrightarrow> unat n + LENGTH('a) \<le> 2 ^ (LENGTH('s) - 1)"
  shows "\<exists>bv'. resize_value junk bv n v = Some bv'
           \<and> size_bv bv' = n
           \<and> length (bits_of bv') = unat n
           \<and> (\<forall>j<min (length (bits_of bv)) (unat n). bits_of bv' ! j = bits_of bv ! j)
           \<and> (\<forall>j. length (bits_of bv) \<le> j \<and> j < unat n \<longrightarrow> bits_of bv' ! j = v)
           \<and> (\<forall>i. length (mContainer bv) \<le> i \<and> i < length (mContainer bv')
                  \<longrightarrow> mContainer bv' ! i = (if v then NOT 0 else 0))
           \<and> (\<forall>j<length (bits_of bv'). index_const bv' (of_nat j) = Some (bits_of bv' ! j))"
proof -
  obtain bv' where run: "resize_value junk bv n v = Some bv'" and w: "wellformed bv'"
    and sz: "size_bv bv' = n"
    and b: "bits_of bv' = take (unat n) (bits_of bv) @ replicate (unat n - unat (size_bv bv)) v"
    and m: "\<forall>i. length (mContainer bv) \<le> i \<and> i < length (mContainer bv')
                \<longrightarrow> mContainer bv' ! i = (if v then NOT 0 else 0)"
    using resize_value_at[OF assms, of junk v] by blast
  have l: "length (bits_of bv') = unat n" by (simp add: length_bits_of sz)
  have 1: "\<forall>j<min (length (bits_of bv)) (unat n). bits_of bv' ! j = bits_of bv ! j"
    by (simp add: b nth_append)
  have 2: "\<forall>j. length (bits_of bv) \<le> j \<and> j < unat n \<longrightarrow> bits_of bv' ! j = v"
    by (auto simp: b nth_append length_bits_of)
  have 4: "\<forall>j<length (bits_of bv'). index_const bv' (of_nat j) = Some (bits_of bv' ! j)"
    using bits_of_index_const[OF w] by blast
  show ?thesis using run sz l 1 2 m 4 by blast
qed

theorem resize_value_fills_witness:
  "wellformed \<lparr>mContainer = [5 :: 32 word], mFreeBitCount = 29 :: 64 word\<rparr>
   \<and> bits_of \<lparr>mContainer = [5 :: 32 word], mFreeBitCount = 29 :: 64 word\<rparr> = [True, False, True]
   \<and> (\<exists>bv'. resize_value zero_fill \<lparr>mContainer = [5 :: 32 word], mFreeBitCount = 29 :: 64 word\<rparr>
                 70 True = Some bv'
          \<and> size_bv bv' = 70
          \<and> bits_of bv' ! 0 = True \<and> bits_of bv' ! 1 = False \<and> bits_of bv' ! 2 = True
          \<and> bits_of bv' ! 3 = True \<and> bits_of bv' ! 31 = True \<and> bits_of bv' ! 32 = True
          \<and> bits_of bv' ! 69 = True)"
proof -
  let ?bv = "\<lparr>mContainer = [5 :: 32 word], mFreeBitCount = 29 :: 64 word\<rparr>"
  have w: "wellformed ?bv" by (simp add: wellformed_def)
  have b: "bits_of ?bv = [True, False, True]" by code_simp
  have g: "length (mContainer ?bv) * LENGTH(32) < unat (70 :: 64 word)
           \<longrightarrow> unat (70 :: 64 word) + LENGTH(32) \<le> 2 ^ (LENGTH(64) - 1)"
    by simp
  obtain bv' where r: "resize_value zero_fill ?bv 70 True = Some bv'" "size_bv bv' = 70"
    and 1: "\<forall>j<min (length (bits_of ?bv)) (unat (70 :: 64 word)). bits_of bv' ! j = bits_of ?bv ! j"
    and 2: "\<forall>j. length (bits_of ?bv) \<le> j \<and> j < unat (70 :: 64 word) \<longrightarrow> bits_of bv' ! j = True"
    using resize_value_fills[OF w g, of zero_fill True] by blast
  have "bits_of bv' ! 0 = True" "bits_of bv' ! 1 = False" "bits_of bv' ! 2 = True"
    using 1 by (simp_all add: b)
  moreover have "bits_of bv' ! 3 = True" "bits_of bv' ! 31 = True" "bits_of bv' ! 32 = True"
    "bits_of bv' ! 69 = True"
    using 2 by (simp_all add: b)
  ultimately show ?thesis using w b r by blast
qed

text \<open>The claim as stated, for every \<open>n\<close>: with a 64-bit \<^verbatim>\<open>size_type\<close>, \<^verbatim>\<open>resize(n, true)\<close>
  with \<open>n = 2^64 - 2\<close> on the empty sequence computes the word count from a sum that
  wraps; the store stays empty, \<^verbatim>\<open>size()\<close> is \<open>n\<close>, and bit 0, an index in
  \<open>[oldSize, n)\<close>, cannot be read.\<close>

theorem resize_value_size_max_counterexample:
  "resize_value zero_fill (bitvector_default :: (32 word, 64 word) bitvector) (- 2) True
     = Some \<lparr>mContainer = [], mFreeBitCount = 2\<rparr>
   \<and> size_bv (\<lparr>mContainer = [], mFreeBitCount = 2\<rparr> :: (32 word, 64 word) bitvector) = - 2
   \<and> test (\<lparr>mContainer = [], mFreeBitCount = 2\<rparr> :: (32 word, 64 word) bitvector) 0 False = None
   \<and> index_const (\<lparr>mContainer = [], mFreeBitCount = 2\<rparr> :: (32 word, 64 word) bitvector) 0 = None"
  by code_simp

section \<open>Equality and order of two sequences\<close>

subsection \<open>Comparison\<close>









section \<open>The bookkeeping invariant\<close>

subsection \<open>The free-bit count stays below a word\<close>

lemma pushBack_free_less:
  fixes bv :: "('a::len word, 's::len word) bitvector"
  assumes "LENGTH('a) < 2 ^ LENGTH('s)" "unat (mFreeBitCount bv) < LENGTH('a)"
  shows "unat (mFreeBitCount (pushBack junk bv)) < LENGTH('a)"
proof (cases "mFreeBitCount bv = 0")
  case True
  have "unat (of_nat LENGTH('a) - 1 :: 's word) = LENGTH('a) - 1"
    using assms(1) by (rule unat_of_nat_K_minus_1)
  then show ?thesis using True by (simp add: pushBack_grow)
next
  case False
  have "unat (mFreeBitCount bv - 1) = unat (mFreeBitCount bv) - 1"
    using False by (rule unat_pred)
  then have "unat (mFreeBitCount bv - 1) < LENGTH('a)" using assms(2) by linarith
  then show ?thesis using False by (simp add: pushBack_free)
qed

lemma pushBack_value_free:
  assumes "pushBack_value junk bv v = Some bv'"
  shows "mFreeBitCount bv' = mFreeBitCount (pushBack junk bv)"
  using assms by (auto simp: pushBack_value_def Let_def)

lemma pushBack_value_free_less:
  fixes bv :: "('a::len word, 's::len word) bitvector"
  assumes "LENGTH('a) < 2 ^ LENGTH('s)" "unat (mFreeBitCount bv) < LENGTH('a)"
    and "pushBack_value junk bv v = Some bv'"
  shows "unat (mFreeBitCount bv') < LENGTH('a)"
  using pushBack_free_less[OF assms(1,2), of junk] pushBack_value_free[OF assms(3)] by simp

lemma assign_loop_free_less:
  fixes bv :: "('a::len word, 's::len word) bitvector"
  assumes "LENGTH('a) < 2 ^ LENGTH('s)" "unat (mFreeBitCount bv) < LENGTH('a)"
    and "assign_loop junk bv xs = Some bv'"
  shows "unat (mFreeBitCount bv') < LENGTH('a)"
  using assms(2,3)
proof (induction xs arbitrary: bv)
  case Nil
  then show ?case by simp
next
  case (Cons x xs)
  from Cons.prems(2) obtain bv1 where p: "pushBack_value junk bv x = Some bv1"
    and l: "assign_loop junk bv1 xs = Some bv'"
    by (auto split: option.splits)
  have "unat (mFreeBitCount bv1) < LENGTH('a)"
    by (rule pushBack_value_free_less[OF assms(1) Cons.prems(1) p])
  then show ?case using l by (rule Cons.IH)
qed

lemma resize_fill_loop_free_less:
  fixes bv :: "('a::len word, 's::len word) bitvector"
  assumes "LENGTH('a) < 2 ^ LENGTH('s)" "unat (mFreeBitCount bv) < LENGTH('a)"
    and "resize_fill_loop junk bv newbits v = Some (bv2, nb2)"
  shows "unat (mFreeBitCount bv2) < LENGTH('a)"
  using assms(2,3)
proof (induction junk bv newbits v rule: resize_fill_loop.induct)
  case (1 junk bv newbits v)
  show ?case
  proof (cases "mFreeBitCount bv \<noteq> 0 \<and> newbits \<noteq> 0")
    case True
    from "1.prems"(2) True obtain bv1 where p: "pushBack_value junk bv v = Some bv1"
      and l: "resize_fill_loop junk bv1 (newbits - 1) v = Some (bv2, nb2)"
      by (subst (asm) resize_fill_loop.simps) (auto split: option.splits)
    have "unat (mFreeBitCount bv1) < LENGTH('a)"
      by (rule pushBack_value_free_less[OF assms(1) "1.prems"(1) p])
    then show ?thesis using l True p by (intro "1.IH") simp_all
  next
    case False
    then have "bv2 = bv"
      using "1.prems"(2) by (subst (asm) resize_fill_loop.simps) auto
    then show ?thesis using "1.prems"(1) by simp
  qed
qed

lemma resize_value_free_less:
  fixes bv :: "('a::len word, 's::len word) bitvector"
  assumes "LENGTH('a) < 2 ^ LENGTH('s)" "unat (mFreeBitCount bv) < LENGTH('a)"
    and "resize_value junk bv n v = Some bv'"
  shows "unat (mFreeBitCount bv') < LENGTH('a)"
proof -
  let ?bv1 = "if n < size_bv bv then resize junk bv n else bv"
  have f1: "unat (mFreeBitCount ?bv1) < LENGTH('a)"
    using assms(2) resize_free_less[OF assms(1), of junk bv n] by simp
  from assms(3) obtain bv2 nb2 where
    l: "resize_fill_loop junk ?bv1 (n - size_bv bv) v = Some (bv2, nb2)"
    and r: "bv' = (if nb2 \<noteq> 0 then resize (\<lambda>_. if v then NOT 0 else 0) bv2 n else bv2)"
    by (auto simp: resize_value_def Let_def resize_as_fill split: option.splits if_splits)
  have f2: "unat (mFreeBitCount bv2) < LENGTH('a)"
    by (rule resize_fill_loop_free_less[OF assms(1) f1 l])
  show ?thesis
    unfolding r using f2 resize_free_less[OF assms(1), of "\<lambda>_. if v then NOT 0 else 0" bv2 n]
    by simp
qed

lemma constructor_free_less:
  fixes n :: "'s::len word"
  assumes "LENGTH('a::len) < 2 ^ LENGTH('s)"
  defines "f \<equiv> (of_nat LENGTH('a) - (n mod of_nat LENGTH('a)) :: 's word)"
  shows "unat (if f = of_nat LENGTH('a) then 0 else f) < LENGTH('a)"
proof -
  let ?k = "LENGTH('a)"
  have uk: "unat (of_nat ?k :: 's word) = ?k" using assms(1) by (rule unat_of_nat_small)
  have um: "unat (n mod of_nat ?k) = unat n mod ?k" by (simp only: unat_mod uk)
  have ml: "unat n mod ?k < ?k" by simp
  have "n mod of_nat ?k \<le> (of_nat ?k :: 's word)"
    unfolding word_le_nat_alt um uk using ml by linarith
  then have "unat f = unat (of_nat ?k :: 's word) - unat (n mod of_nat ?k)"
    unfolding f_def by (rule unat_sub)
  then have uf: "unat f = ?k - unat n mod ?k" by (simp only: uk um)
  show ?thesis
  proof (cases "f = of_nat ?k")
    case True
    then show ?thesis by simp
  next
    case False
    then have "unat f \<noteq> ?k" using uk by (metis word_unat_eq_iff)
    then have "unat f < ?k" using uf by linarith
    then show ?thesis using False by simp
  qed
qed

lemma popBack_free_less:
  fixes bv :: "('a::len word, 's::len word) bitvector"
  assumes "LENGTH('a) < 2 ^ LENGTH('s)" "unat (mFreeBitCount bv) < LENGTH('a)"
    and "popBack bv = Some bv'"
  shows "unat (mFreeBitCount bv') < LENGTH('a)"
proof -
  let ?k = "LENGTH('a)"
  let ?f = "mFreeBitCount bv"
  have uk: "unat (of_nat ?k :: 's word) = ?k" using assms(1) by (rule unat_of_nat_small)
  have "unat ?f + unat (1 :: 's word) < 2 ^ LENGTH('s)" using assms(1,2) by simp
  then have u: "unat (?f + 1) = unat ?f + 1" by (simp add: unat_add_lem[THEN iffD1])
  show ?thesis
  proof (cases "?f + 1 = of_nat ?k")
    case True
    then have "bv' = \<lparr>mContainer = vector_popBack (mContainer bv), mFreeBitCount = 0\<rparr>"
      using assms(3) by (auto simp: popBack_def Let_def split: if_splits)
    then show ?thesis by simp
  next
    case False
    then have "unat (?f + 1) \<noteq> ?k" using uk by (metis word_unat_eq_iff)
    then have "unat (?f + 1) < ?k" using u assms(2) by linarith
    moreover have "bv' = bv\<lparr>mFreeBitCount := ?f + 1\<rparr>"
      using assms(3) False by (auto simp: popBack_def Let_def split: if_splits)
    ultimately show ?thesis by simp
  qed
qed

lemma reachable_free_less:
  fixes bv :: "('a::len word, 's::len word) bitvector"
  assumes k: "LENGTH('a) < 2 ^ LENGTH('s)" and "reachable bv"
  shows "unat (mFreeBitCount bv) < LENGTH('a)"
  using assms(2)
proof (induction rule: reachable.induct)
  case r_default
  show ?case by (simp add: bitvector_default_def)
next
  case (r_n junk n)
  show ?case using constructor_free_less[OF k, of n] by (simp add: bitvector_n_def Let_def)
next
  case (r_n_value n v)
  show ?case using constructor_free_less[OF k, of n] by (simp add: bitvector_n_value_def Let_def)
next
  case (r_range junk xs bv)
  have "unat (mFreeBitCount (clear bitvector_default :: ('a word, 's word) bitvector)) < LENGTH('a)"
    by (simp add: clear_def)
  moreover have "assign_loop junk (clear bitvector_default) xs = Some bv"
    using r_range by (simp add: bitvector_range_def assign_def)
  ultimately show ?case by (rule assign_loop_free_less[OF k])
next
  case (r_assign bv junk xs bv')
  have "unat (mFreeBitCount (clear bv)) < LENGTH('a)" by (simp add: clear_def)
  moreover have "assign_loop junk (clear bv) xs = Some bv'"
    using r_assign(2) by (simp add: assign_def)
  ultimately show ?case by (rule assign_loop_free_less[OF k])
next
  case (r_pushBack bv junk)
  from r_pushBack(2) show ?case by (rule pushBack_free_less[OF k])
next
  case (r_pushBack_value bv junk v bv')
  from r_pushBack_value(3,2) show ?case by (rule pushBack_value_free_less[OF k])
next
  case (r_popBack bv bv')
  from r_popBack(3,2) show ?case by (rule popBack_free_less[OF k])
next
  case (r_resize bv junk n)
  show ?case by (rule resize_free_less[OF k])
next
  case (r_resize_value bv junk n v bv')
  from r_resize_value(3,2) show ?case by (rule resize_value_free_less[OF k])
next
  case (r_set bv junk n v bv')
  from r_set(2) obtain c where
    "bv' = (if size_bv bv \<le> n then resize junk bv (n + 1) else bv)\<lparr>mContainer := c\<rparr>"
    by (auto simp: set_bv_def Let_def)
  then show ?case using r_set(3) resize_free_less[OF k, of junk bv "n + 1"] by simp
next
  case (r_insert bv asserts junk base base' position v bv' it)
  from r_insert(2) obtain c where "bv' = (pushBack junk bv)\<lparr>mContainer := c\<rparr>"
    by (auto simp: insert_bv_def Let_def split: bind_splits)
  then show ?case using pushBack_free_less[OF k r_insert(3), of junk] by simp
next
  case (r_insert_n bv asserts junk base base' position n v bv')
  from r_insert_n(2) obtain c where "bv' = (resize junk bv (size_bv bv + n))\<lparr>mContainer := c\<rparr>"
    by (auto simp: insert_n_def Let_def split: bind_splits)
  then show ?case using resize_free_less[OF k, of junk bv "size_bv bv + n"] by simp
next
  case (r_erase_position bv asserts junk position bv' it)
  from r_erase_position(2) obtain bv1 m where "bv' = resize junk bv1 m"
    by (auto simp: erase_position_def Let_def split: bind_splits)
  then show ?case using resize_free_less[OF k] by simp
next
  case (r_erase bv asserts junk first last' bv' it)
  from r_erase(2) have "bv' = bv \<or> (\<exists>bv1 m. bv' = resize junk bv1 m)"
    by (auto simp: erase_def Let_def split: bind_splits if_splits)
  then show ?case using resize_free_less[OF k] r_erase(3) by auto
next
  case (r_clear bv)
  show ?case by (simp add: clear_def)
next
  case (r_resetLoseMemory bv)
  show ?case by (simp add: resetLoseMemory_def)
next
  case (r_setCapacity bv n)
  then show ?case by (simp add: setCapacity_def)
qed

text \<open>
  Claim C1, amended. In every state reachable from a constructor by the public
  operations, \<open>mFreeBitCount < kBitCount\<close>, and \<^verbatim>\<open>size()\<close> is
  \<open>wordCount * kBitCount - mFreeBitCount\<close> in the arithmetic of \<^verbatim>\<open>size_type\<close>, \<open>wordCount\<close>
  the number of words of the store. On a non-empty store \<^verbatim>\<open>popBack\<close> removes the last word
  and resets \<open>mFreeBitCount\<close> to 0 exactly when \<open>mFreeBitCount + 1\<close> reaches \<open>kBitCount\<close>, and
  otherwise only counts \<open>mFreeBitCount\<close> up by one. For every \<open>n\<close> such that
  \<open>n + kBitCount - 1\<close> does not exceed the largest value of \<^verbatim>\<open>size_type\<close>, \<^verbatim>\<open>resize(n)\<close> leaves
  \<open>wordCount = \<lceil>n / kBitCount\<rceil>\<close> and \<open>mFreeBitCount = wordCount * kBitCount - n\<close>; for every
  \<open>n\<close> whatsoever it leaves \<open>mFreeBitCount < kBitCount\<close>.
\<close>

theorem bookkeeping_invariant:
  fixes bv :: "('a::len word, 's::len word) bitvector"
  assumes "LENGTH('a) < 2 ^ LENGTH('s)" and "reachable bv"
  shows "unat (mFreeBitCount bv) < LENGTH('a)
    \<and> size_bv bv = of_nat (length (mContainer bv)) * of_nat LENGTH('a) - mFreeBitCount bv
    \<and> (mContainer bv \<noteq> [] \<longrightarrow>
         popBack bv = Some (if unat (mFreeBitCount bv) + 1 = LENGTH('a)
                            then \<lparr>mContainer = butlast (mContainer bv), mFreeBitCount = 0\<rparr>
                            else bv\<lparr>mFreeBitCount := mFreeBitCount bv + 1\<rparr>)
         \<and> (unat (mFreeBitCount bv) + 1 \<noteq> LENGTH('a)
              \<longrightarrow> unat (mFreeBitCount bv + 1) = unat (mFreeBitCount bv) + 1))
    \<and> (\<forall>junk n. unat (mFreeBitCount (resize junk bv n)) < LENGTH('a)
          \<and> (unat n + LENGTH('a) - 1 < 2 ^ LENGTH('s) \<longrightarrow>
               length (mContainer (resize junk bv n)) = (unat n + LENGTH('a) - 1) div LENGTH('a)
               \<and> unat (mFreeBitCount (resize junk bv n))
                   = length (mContainer (resize junk bv n)) * LENGTH('a) - unat n))"
proof -
  let ?k = "LENGTH('a)"
  let ?f = "mFreeBitCount bv"
  have f: "unat ?f < ?k" using assms by (rule reachable_free_less)
  have s: "size_bv bv = of_nat (length (mContainer bv)) * of_nat ?k - ?f"
    by (simp add: size_bv_def vector_size_def)
  have uk: "unat (of_nat ?k :: 's word) = ?k" using assms(1) by (rule unat_of_nat_small)
  have "unat ?f + unat (1 :: 's word) < 2 ^ LENGTH('s)" using assms(1) f by simp
  then have u: "unat (?f + 1) = unat ?f + 1" by (simp add: unat_add_lem[THEN iffD1])
  have e: "?f + 1 = of_nat ?k \<longleftrightarrow> unat ?f + 1 = ?k"
    using u uk by (metis word_unat_eq_iff)
  have p: "popBack bv = Some (if unat ?f + 1 = ?k
                            then \<lparr>mContainer = butlast (mContainer bv), mFreeBitCount = 0\<rparr>
                            else bv\<lparr>mFreeBitCount := ?f + 1\<rparr>)"
    if "mContainer bv \<noteq> []"
    using that by (simp add: popBack_def Let_def empty_bv_def e vector_popBack_def)
  have r1: "unat (mFreeBitCount (resize junk bv n)) < ?k" for junk n
    using assms(1) by (rule resize_free_less)
  have r2: "length (mContainer (resize junk bv n)) = (unat n + ?k - 1) div ?k
            \<and> unat (mFreeBitCount (resize junk bv n))
                = length (mContainer (resize junk bv n)) * ?k - unat n"
    if "unat n + ?k - 1 < 2 ^ LENGTH('s)" for junk n
  proof -
    note rw = resize_words[OF assms(1) that]
    have l: "length (mContainer (resize junk bv n)) = (unat n + ?k - 1) div ?k"
      by (simp add: resize_def Let_def length_vector_resize rw(1))
    have "unat (mFreeBitCount (resize junk bv n)) = ((unat n + ?k - 1) div ?k) * ?k - unat n"
      by (simp add: resize_def Let_def rw(2))
    then show ?thesis using l by simp
  qed
  show ?thesis using f s p u r1 r2 by blast
qed

theorem bookkeeping_invariant_witness:
  "reachable (bitvector_n_value 33 True :: (32 word, 64 word) bitvector)
   \<and> bitvector_n_value 33 True
       = (\<lparr>mContainer = [- 1, - 1], mFreeBitCount = 31\<rparr> :: (32 word, 64 word) bitvector)
   \<and> size_bv (bitvector_n_value 33 True :: (32 word, 64 word) bitvector) = 33
   \<and> popBack (bitvector_n_value 33 True :: (32 word, 64 word) bitvector)
       = Some \<lparr>mContainer = [- 1], mFreeBitCount = 0\<rparr>
   \<and> length (mContainer (resize zero_fill (bitvector_n_value 33 True :: (32 word, 64 word) bitvector) 70)) = 3
   \<and> unat (mFreeBitCount (resize zero_fill (bitvector_n_value 33 True :: (32 word, 64 word) bitvector) 70)) = 26"
proof -
  let ?bv = "bitvector_n_value 33 True :: (32 word, 64 word) bitvector"
  have k: "LENGTH(32) < 2 ^ LENGTH(64)" by simp
  have r: "reachable ?bv" by (rule r_n_value)
  have e: "?bv = \<lparr>mContainer = [- 1, - 1], mFreeBitCount = 31\<rparr>" by code_simp
  note t = bookkeeping_invariant[OF k r]
  have s: "size_bv ?bv = 33" using t[THEN conjunct2, THEN conjunct1] by (simp add: e)
  have "mContainer ?bv \<noteq> []" by (simp add: e)
  then have p: "popBack ?bv = Some \<lparr>mContainer = [- 1], mFreeBitCount = 0\<rparr>"
    using t[THEN conjunct2, THEN conjunct2, THEN conjunct1] by (simp add: e)
  have g: "unat (70 :: 64 word) + LENGTH(32) - 1 < 2 ^ LENGTH(64)" by simp
  have z: "length (mContainer (resize zero_fill ?bv 70)) = 3
           \<and> unat (mFreeBitCount (resize zero_fill ?bv 70)) = 26"
    using t[THEN conjunct2, THEN conjunct2, THEN conjunct2, THEN spec, THEN spec,
            THEN conjunct2, THEN mp, OF g, of zero_fill]
    by simp
  show ?thesis using r e s p z by blast
qed

text \<open>The claim as stated, for every \<open>n\<close>: with a 64-bit \<^verbatim>\<open>size_type\<close> and 32-bit words,
  \<^verbatim>\<open>resize(n)\<close> with \<open>n = 2^64 - 2\<close> on the default-constructed sequence computes the word
  count from a sum that wraps: the store stays empty, whereas \<open>\<lceil>n / kBitCount\<rceil>\<close> is \<open>2^59\<close>.\<close>

theorem resize_size_max_counterexample:
  "reachable (bitvector_default :: (32 word, 64 word) bitvector)
   \<and> resize zero_fill (bitvector_default :: (32 word, 64 word) bitvector) (- 2)
       = \<lparr>mContainer = [], mFreeBitCount = 2\<rparr>
   \<and> length (mContainer (resize zero_fill (bitvector_default :: (32 word, 64 word) bitvector) (- 2))) = 0
   \<and> (unat (- 2 :: 64 word) + 32 - 1) div 32 = (2 :: nat) ^ 59"
proof -
  have "reachable (bitvector_default :: (32 word, 64 word) bitvector)" by (rule r_default)
  moreover have e: "resize zero_fill (bitvector_default :: (32 word, 64 word) bitvector) (- 2)
       = \<lparr>mContainer = [], mFreeBitCount = 2\<rparr>" by code_simp
  moreover have "(unat (- 2 :: 64 word) + 32 - 1) div 32 = (2 :: nat) ^ 59" by simp
  ultimately show ?thesis by (simp only: e) simp
qed

section \<open>Emptiness and size\<close>

subsection \<open>The store keeps its length under bit moves\<close>

lemma ref_assign_length:
  assumes "ref_assign c r v = Some c'"
  shows "length c' = length c"
  using assms by (auto simp: ref_assign_def Let_def split: option.splits if_splits)

lemma MoveBits_forward_length:
  assumes "MoveBits_forward c start stop dest = Some c'"
  shows "length c' = length c"
proof (rule MoveBits_forward.raw_induct[where P = "\<lambda>c start stop dest c'. length c' = length c",
        OF _ assms])
  fix f and c :: "'a word list" and start stop dest :: "'a bitvector_reference" and y
  assume ih: "\<And>c start stop dest y. f c start stop dest = Some y \<Longrightarrow> length y = length c"
    and st: "(if start \<noteq> stop
              then ref_bool (store c) start \<bind> (\<lambda>b. ref_assign c dest b \<bind>
                     (\<lambda>c'. f c' (iter_inc start) stop (iter_inc dest)))
              else Some c) = Some y"
  show "length y = length c"
  proof (cases "start \<noteq> stop")
    case True
    with st obtain b c1 where a: "ref_assign c dest b = Some c1"
      and r: "f c1 (iter_inc start) stop (iter_inc dest) = Some y"
      by (auto split: bind_splits)
    have "length y = length c1" using r by (rule ih)
    then show ?thesis using ref_assign_length[OF a] by simp
  next
    case False
    with st show ?thesis by simp
  qed
qed

lemma MoveBits_backward_length:
  assumes "MoveBits_backward c start stop dest = Some c'"
  shows "length c' = length c"
proof (rule MoveBits_backward.raw_induct[where P = "\<lambda>c start stop dest c'. length c' = length c",
        OF _ assms])
  fix f and c :: "'a word list" and start stop dest :: "'a bitvector_reference" and y
  assume ih: "\<And>c start stop dest y. f c start stop dest = Some y \<Longrightarrow> length y = length c"
    and st: "(if start \<noteq> stop
              then ref_bool (store c) (iter_dec stop) \<bind> (\<lambda>b. ref_assign c (iter_dec dest) b \<bind>
                     (\<lambda>c'. f c' start (iter_dec stop) (iter_dec dest)))
              else Some c) = Some y"
  show "length y = length c"
  proof (cases "start \<noteq> stop")
    case True
    with st obtain b c1 where a: "ref_assign c (iter_dec dest) b = Some c1"
      and r: "f c1 start (iter_dec stop) (iter_dec dest) = Some y"
      by (auto split: bind_splits)
    have "length y = length c1" using r by (rule ih)
    then show ?thesis using ref_assign_length[OF a] by simp
  next
    case False
    with st show ?thesis by simp
  qed
qed

lemma MoveBits_length:
  assumes "MoveBits c start stop dest = Some c'"
  shows "length c' = length c"
  using assms MoveBits_forward_length MoveBits_backward_length
  by (auto simp: MoveBits_def split: if_splits)

lemma insert_fill_loop_length:
  assumes "insert_fill_loop c position insert_end v = Some c'"
  shows "length c' = length c"
proof (rule insert_fill_loop.raw_induct[where P = "\<lambda>c position insert_end v c'. length c' = length c",
        OF _ assms])
  fix f and c :: "'a word list" and position insert_end :: "'a bitvector_reference" and v y
  assume ih: "\<And>c position insert_end v y. f c position insert_end v = Some y \<Longrightarrow> length y = length c"
    and st: "(if position \<noteq> insert_end
              then ref_assign c position v \<bind> (\<lambda>c'. f c' (iter_inc position) insert_end v)
              else Some c) = Some y"
  show "length y = length c"
  proof (cases "position \<noteq> insert_end")
    case True
    with st obtain c1 where a: "ref_assign c position v = Some c1"
      and r: "f c1 (iter_inc position) insert_end v = Some y"
      by (auto split: bind_splits)
    have "length y = length c1" using r by (rule ih)
    then show ?thesis using ref_assign_length[OF a] by simp
  next
    case False
    with st show ?thesis by simp
  qed
qed

lemma wellformed_store_length:
  fixes bv :: "('a::len word, 's::len word) bitvector"
  assumes "wellformed bv" "length c = length (mContainer bv)"
  shows "wellformed (bv\<lparr>mContainer := c\<rparr>)" and "size_bv (bv\<lparr>mContainer := c\<rparr>) = size_bv bv"
  using assms by (auto simp: wellformed_def size_bv_def vector_size_def)

subsection \<open>Operations within range keep the bookkeeping consistent\<close>

lemma consistent_size:
  fixes bv :: "('a::len word, 's::len word) bitvector"
  assumes "consistent bv"
  shows "length (mContainer bv) * LENGTH('a) < 2 ^ LENGTH('s)"
    and "unat (mFreeBitCount bv) \<le> length (mContainer bv) * LENGTH('a)"
    and "unat (size_bv bv) = length (mContainer bv) * LENGTH('a) - unat (mFreeBitCount bv)"
proof -
  let ?k = "LENGTH('a)"
  let ?c = "mContainer bv"
  let ?cap = "length ?c * ?k"
  have f: "unat (mFreeBitCount bv) < ?k" and z: "?c = [] \<longrightarrow> mFreeBitCount bv = 0"
    and b: "?c \<noteq> [] \<longrightarrow> ?cap - unat (mFreeBitCount bv) + ?k - 1 < 2 ^ LENGTH('s)"
    using assms by (simp_all add: consistent_def)
  show le: "unat (mFreeBitCount bv) \<le> ?cap"
  proof (cases "?c = []")
    case True
    then show ?thesis using z by simp
  next
    case False
    then have "1 \<le> length ?c" by (cases ?c) simp_all
    then have "1 * ?k \<le> ?cap" by (rule mult_le_mono1)
    then have "?k \<le> ?cap" by (simp only: mult_1)
    then show ?thesis using f by linarith
  qed
  show cap: "?cap < 2 ^ LENGTH('s)"
  proof (cases "?c = []")
    case True
    then show ?thesis by simp
  next
    case False
    then have "?cap - unat (mFreeBitCount bv) + ?k - 1 < 2 ^ LENGTH('s)" using b by simp
    then show ?thesis using f le by linarith
  qed
  have e: "(vector_size ?c * of_nat ?k :: 's word) = of_nat ?cap"
    by (simp add: vector_size_def)
  have u: "unat (of_nat ?cap :: 's word) = ?cap" using cap by (rule unat_of_nat_small)
  have "mFreeBitCount bv \<le> of_nat ?cap" using le u by (simp add: word_le_nat_alt)
  then have "unat (of_nat ?cap - mFreeBitCount bv) = ?cap - unat (mFreeBitCount bv)"
    using u by (simp add: unat_sub)
  then show "unat (size_bv bv) = ?cap - unat (mFreeBitCount bv)" by (simp add: size_bv_def e)
qed

lemma consistentI:
  fixes bv :: "('a::len word, 's::len word) bitvector"
  assumes "unat (mFreeBitCount bv) < LENGTH('a)"
    and "mContainer bv = [] \<Longrightarrow> mFreeBitCount bv = 0"
    and "mContainer bv \<noteq> [] \<Longrightarrow>
           length (mContainer bv) * LENGTH('a) - unat (mFreeBitCount bv) + LENGTH('a) - 1
             < 2 ^ LENGTH('s)"
  shows "consistent bv"
  using assms by (simp add: consistent_def)

lemma consistent_store_length:
  fixes bv :: "('a::len word, 's::len word) bitvector"
  assumes "consistent bv" "length c = length (mContainer bv)"
  shows "consistent (bv\<lparr>mContainer := c\<rparr>)"
  using assms by (auto simp: consistent_def)

lemma empty_state_consistent:
  "consistent (\<lparr>mContainer = [], mFreeBitCount = 0\<rparr> :: ('a::len word, 's::len word) bitvector)"
  by (simp add: consistent_def)

lemma resize_consistent:
  fixes bv :: "('a::len word, 's::len word) bitvector" and n :: "'s word"
  assumes k: "LENGTH('a) < 2 ^ LENGTH('s)" and r: "unat n + LENGTH('a) - 1 < 2 ^ LENGTH('s)"
  shows "consistent (resize junk bv n)"
proof (rule consistentI)
  let ?k = "LENGTH('a)"
  let ?q = "(unat n + ?k - 1) div ?k"
  note rw = resize_words[OF k r]
  have b1: "unat n \<le> ?q * ?k" and b2: "?q * ?k < unat n + ?k"
    using ceil_bounds[of ?k "unat n"] by simp_all
  have l: "length (mContainer (resize junk bv n)) = ?q"
    by (simp add: resize_def Let_def length_vector_resize rw(1))
  have f: "unat (mFreeBitCount (resize junk bv n)) = ?q * ?k - unat n"
    by (simp add: resize_def Let_def rw(2))
  show "unat (mFreeBitCount (resize junk bv n)) < ?k"
    unfolding f by (rule nat_sub_less[OF b2]) simp
  show "mFreeBitCount (resize junk bv n) = 0" if "mContainer (resize junk bv n) = []"
  proof -
    have "?q = 0" using that l by simp
    then have "unat (mFreeBitCount (resize junk bv n)) = 0" unfolding f by simp
    then show ?thesis by (simp add: unat_eq_0)
  qed
  show "length (mContainer (resize junk bv n)) * ?k - unat (mFreeBitCount (resize junk bv n))
          + ?k - 1 < 2 ^ LENGTH('s)"
    unfolding l f using b1 r by simp
qed

lemma pushBack_consistent:
  fixes bv :: "('a::len word, 's::len word) bitvector"
  assumes c: "consistent bv" and r: "unat (size_bv bv) + 1 + LENGTH('a) - 1 < 2 ^ LENGTH('s)"
  shows "consistent (pushBack junk bv)"
proof (cases "mFreeBitCount bv = 0")
  case True
  let ?k = "LENGTH('a)"
  have k: "?k < 2 ^ LENGTH('s)" using r by linarith
  have u: "unat (of_nat ?k - 1 :: 's word) = ?k - 1" using k by (rule unat_of_nat_K_minus_1)
  have s: "unat (size_bv bv) = length (mContainer bv) * ?k"
    using consistent_size(3)[OF c] True by simp
  show ?thesis
    unfolding pushBack_grow[OF True]
    by (rule consistentI) (use u s r in \<open>simp_all add: algebra_simps\<close>)
next
  case False
  let ?k = "LENGTH('a)"
  have f: "unat (mFreeBitCount bv) < ?k" and z: "mContainer bv = [] \<longrightarrow> mFreeBitCount bv = 0"
    using c by (simp_all add: consistent_def)
  have ne: "mContainer bv \<noteq> []" using z False by blast
  have u: "unat (mFreeBitCount bv - 1) = unat (mFreeBitCount bv) - 1" using False by (rule unat_pred)
  have p: "0 < unat (mFreeBitCount bv)" using False by (simp add: unat_gt_0)
  have s: "unat (size_bv bv) = length (mContainer bv) * ?k - unat (mFreeBitCount bv)"
    by (rule consistent_size(3)[OF c])
  have le: "unat (mFreeBitCount bv) \<le> length (mContainer bv) * ?k" by (rule consistent_size(2)[OF c])
  show ?thesis
    unfolding pushBack_free[OF False]
  proof (rule consistentI)
    show "unat (mFreeBitCount (bv\<lparr>mFreeBitCount := mFreeBitCount bv - 1\<rparr>)) < ?k"
      using u f by simp
    show "mFreeBitCount (bv\<lparr>mFreeBitCount := mFreeBitCount bv - 1\<rparr>) = 0"
      if "mContainer (bv\<lparr>mFreeBitCount := mFreeBitCount bv - 1\<rparr>) = []"
      using that ne by simp
    have "length (mContainer bv) * ?k - (unat (mFreeBitCount bv) - 1) + ?k - 1
          = unat (size_bv bv) + 1 + ?k - 1"
      unfolding s using p le by linarith
    then show "length (mContainer (bv\<lparr>mFreeBitCount := mFreeBitCount bv - 1\<rparr>)) * ?k
          - unat (mFreeBitCount (bv\<lparr>mFreeBitCount := mFreeBitCount bv - 1\<rparr>)) + ?k - 1
          < 2 ^ LENGTH('s)"
      using r u by simp
  qed
qed

lemma pushBack_size:
  fixes bv :: "('a::len word, 's::len word) bitvector"
  shows "size_bv (pushBack junk bv) = size_bv bv + 1"
  by (cases "mFreeBitCount bv = 0")
     (simp_all add: pushBack_grow pushBack_free size_bv_def vector_size_def algebra_simps)

lemma pushBack_value_shape:
  assumes "pushBack_value junk bv v = Some bv'"
  shows "mFreeBitCount bv' = mFreeBitCount (pushBack junk bv)"
    and "length (mContainer bv') = length (mContainer (pushBack junk bv))"
    and "size_bv bv' = size_bv bv + 1"
proof -
  from assms obtain c where a: "ref_assign (mContainer (pushBack junk bv)) (iter_dec (end_bv (pushBack junk bv))) v = Some c"
    and e: "bv' = (pushBack junk bv)\<lparr>mContainer := c\<rparr>"
    by (auto simp: pushBack_value_def Let_def)
  show "mFreeBitCount bv' = mFreeBitCount (pushBack junk bv)" by (simp add: e)
  show l: "length (mContainer bv') = length (mContainer (pushBack junk bv))"
    using ref_assign_length[OF a] by (simp add: e)
  have "size_bv bv' = size_bv (pushBack junk bv)"
    using ref_assign_length[OF a] by (simp add: e size_bv_def vector_size_def)
  then show "size_bv bv' = size_bv bv + 1" by (simp only: pushBack_size)
qed

lemma pushBack_value_consistent:
  fixes bv :: "('a::len word, 's::len word) bitvector"
  assumes c: "consistent bv" and r: "unat (size_bv bv) + 1 + LENGTH('a) - 1 < 2 ^ LENGTH('s)"
    and p: "pushBack_value junk bv v = Some bv'"
  shows "consistent bv'"
proof -
  from p obtain c' where a: "ref_assign (mContainer (pushBack junk bv)) (iter_dec (end_bv (pushBack junk bv))) v = Some c'"
    and e: "bv' = (pushBack junk bv)\<lparr>mContainer := c'\<rparr>"
    by (auto simp: pushBack_value_def Let_def)
  show ?thesis
    unfolding e using pushBack_consistent[OF c r] ref_assign_length[OF a]
    by (rule consistent_store_length)
qed

lemma popBack_consistent:
  fixes bv :: "('a::len word, 's::len word) bitvector"
  assumes c: "consistent bv" and p: "popBack bv = Some bv'"
  shows "consistent bv'"
proof -
  let ?k = "LENGTH('a)"
  let ?f = "mFreeBitCount bv"
  have f: "unat ?f < ?k" using c by (simp add: consistent_def)
  have ne: "mContainer bv \<noteq> []"
    using p by (auto simp: popBack_def empty_bv_def split: if_splits)
  then have b: "length (mContainer bv) * ?k - unat ?f + ?k - 1 < 2 ^ LENGTH('s)"
    using c by (simp add: consistent_def)
  have le: "unat ?f \<le> length (mContainer bv) * ?k" by (rule consistent_size(2)[OF c])
  have kk: "?k \<le> length (mContainer bv) * ?k" using ne by (cases "mContainer bv") simp_all
  have k: "?k < 2 ^ LENGTH('s)" using b le f kk by linarith
  have uk: "unat (of_nat ?k :: 's word) = ?k" using k by (rule unat_of_nat_small)
  have "unat ?f + unat (1 :: 's word) < 2 ^ LENGTH('s)" using k f by simp
  then have u: "unat (?f + 1) = unat ?f + 1" by (simp add: unat_add_lem[THEN iffD1])
  show ?thesis
  proof (cases "?f + 1 = of_nat ?k")
    case True
    then have e: "bv' = \<lparr>mContainer = butlast (mContainer bv), mFreeBitCount = 0\<rparr>"
      using p ne by (auto simp: popBack_def Let_def empty_bv_def vector_popBack_def split: if_splits)
    have fk: "unat ?f + 1 = ?k" using True u uk by simp
    show ?thesis
      unfolding e
    proof (rule consistentI)
      show "unat (mFreeBitCount \<lparr>mContainer = butlast (mContainer bv), mFreeBitCount = (0 :: 's word)\<rparr>) < ?k"
        by simp
      show "mFreeBitCount \<lparr>mContainer = butlast (mContainer bv), mFreeBitCount = (0 :: 's word)\<rparr> = 0"
        by simp
      have "(length (mContainer bv) - 1) * ?k + ?k - 1 = length (mContainer bv) * ?k - 1"
        using kk by (simp add: algebra_simps)
      moreover have "length (mContainer bv) * ?k - 1 < 2 ^ LENGTH('s)"
        using b fk le by linarith
      ultimately show "length (mContainer \<lparr>mContainer = butlast (mContainer bv), mFreeBitCount = (0 :: 's word)\<rparr>) * ?k
            - unat (mFreeBitCount \<lparr>mContainer = butlast (mContainer bv), mFreeBitCount = (0 :: 's word)\<rparr>)
            + ?k - 1 < 2 ^ LENGTH('s)"
        by simp
    qed
  next
    case False
    then have e: "bv' = bv\<lparr>mFreeBitCount := ?f + 1\<rparr>"
      using p by (auto simp: popBack_def Let_def split: if_splits)
    have "unat (?f + 1) \<noteq> ?k" using False uk by (metis word_unat_eq_iff)
    then have lt: "unat (?f + 1) < ?k" using u f by linarith
    show ?thesis
      unfolding e
      by (rule consistentI) (use lt ne b u le in \<open>simp_all\<close>)
  qed
qed

lemma ceil_free:
  fixes n k :: nat
  assumes "0 < k"
  shows "((n + k - 1) div k) * k - n = (if n mod k = 0 then 0 else k - n mod k)"
proof (cases "n mod k = 0")
  case True
  have n: "n = (n div k) * k" using True by (metis add.right_neutral div_mult_mod_eq)
  have "n + k - 1 = (n div k) * k + (k - 1)" using n assms by linarith
  moreover have "((n div k) * k + (k - 1)) div k = n div k"
    by (rule div_mod_unique_nat(1)) (use assms in simp)
  ultimately have "(n + k - 1) div k = n div k" by (simp only:)
  then show ?thesis using True n by simp
next
  case False
  let ?r = "n mod k"
  have r0: "0 < ?r" using False by simp
  have rk: "?r < k" using assms by simp
  have n: "n = (n div k) * k + ?r" by simp
  have "n + k - 1 = (n div k + 1) * k + (?r - 1)"
  proof -
    have "(n div k + 1) * k = (n div k) * k + k" by (simp add: algebra_simps)
    then show ?thesis using n r0 by linarith
  qed
  moreover have "((n div k + 1) * k + (?r - 1)) div k = n div k + 1"
    by (rule div_mod_unique_nat(1)) (use rk in linarith)
  ultimately have q: "(n + k - 1) div k = n div k + 1" by (simp only:)
  have "(n div k + 1) * k - n = k - ?r"
  proof -
    have "(n div k + 1) * k = (n div k) * k + k" by (simp add: algebra_simps)
    then show ?thesis using n rk by linarith
  qed
  then show ?thesis unfolding q using False by simp
qed

lemma constructor_consistent:
  fixes n :: "'s::len word" and c :: "'a::len word list"
  assumes k: "LENGTH('a) < 2 ^ LENGTH('s)" and b: "unat n + LENGTH('a) - 1 < 2 ^ LENGTH('s)"
    and l: "length c = unat ((n + of_nat LENGTH('a) - 1) div of_nat LENGTH('a) :: 's word)"
  defines "f \<equiv> (of_nat LENGTH('a) - (n mod of_nat LENGTH('a)) :: 's word)"
  shows "consistent \<lparr>mContainer = c, mFreeBitCount = (if f = of_nat LENGTH('a) then 0 else f)\<rparr>"
proof -
  let ?k = "LENGTH('a)"
  let ?q = "(unat n + ?k - 1) div ?k"
  let ?free = "if f = of_nat ?k then 0 else f"
  have q: "length c = ?q" unfolding l by (rule resize_words(1)[OF k b])
  have b1: "unat n \<le> ?q * ?k" using ceil_bounds(1)[of ?k "unat n"] by simp
  have uk: "unat (of_nat ?k :: 's word) = ?k" using k by (rule unat_of_nat_small)
  have um: "unat (n mod of_nat ?k) = unat n mod ?k" by (simp only: unat_mod uk)
  have ml: "unat n mod ?k < ?k" by simp
  have "n mod of_nat ?k \<le> (of_nat ?k :: 's word)"
    unfolding word_le_nat_alt um uk using ml by linarith
  then have "unat f = unat (of_nat ?k :: 's word) - unat (n mod of_nat ?k)"
    unfolding f_def by (rule unat_sub)
  then have uf: "unat f = ?k - unat n mod ?k" by (simp only: uk um)
  have fk: "f = of_nat ?k \<longleftrightarrow> unat n mod ?k = 0"
  proof -
    have "f = of_nat ?k \<longleftrightarrow> unat f = ?k" using uk by (metis word_unat_eq_iff)
    also have "\<dots> \<longleftrightarrow> unat n mod ?k = 0" unfolding uf using ml by linarith
    finally show ?thesis .
  qed
  have free: "unat ?free = ?q * ?k - unat n"
    unfolding ceil_free[of ?k "unat n", OF len_gt_0] using fk uf by simp
  have b2: "?q * ?k < unat n + ?k" using ceil_bounds(2)[of ?k "unat n"] by simp
  show ?thesis
  proof (rule consistentI)
    show "unat (mFreeBitCount \<lparr>mContainer = c, mFreeBitCount = ?free\<rparr>) < ?k"
      using free nat_sub_less[OF b2] by simp
    show "mFreeBitCount \<lparr>mContainer = c, mFreeBitCount = ?free\<rparr> = 0"
      if "mContainer \<lparr>mContainer = c, mFreeBitCount = ?free\<rparr> = []"
    proof -
      have "?q = 0" using that q by simp
      then have "unat ?free = 0" unfolding free by simp
      then have "?free = 0" by (simp only: unat_eq_0)
      then show ?thesis by simp
    qed
    have "length c * ?k - unat ?free + ?k - 1 = unat n + ?k - 1"
      unfolding q free using b1 by simp
    then show "length (mContainer \<lparr>mContainer = c, mFreeBitCount = ?free\<rparr>) * ?k
          - unat (mFreeBitCount \<lparr>mContainer = c, mFreeBitCount = ?free\<rparr>) + ?k - 1
          < 2 ^ LENGTH('s)"
      using b by simp
  qed
qed

lemma bitvector_n_consistent:
  fixes n :: "'s::len word"
  assumes "LENGTH('a::len) < 2 ^ LENGTH('s)" "unat n + LENGTH('a) - 1 < 2 ^ LENGTH('s)"
  shows "consistent (bitvector_n junk n :: ('a word, 's word) bitvector)"
  unfolding bitvector_n_def Let_def
  by (rule constructor_consistent[OF assms]) (rule length_vector_resize)

lemma bitvector_n_value_consistent:
  fixes n :: "'s::len word"
  assumes "LENGTH('a::len) < 2 ^ LENGTH('s)" "unat n + LENGTH('a) - 1 < 2 ^ LENGTH('s)"
  shows "consistent (bitvector_n_value n v :: ('a word, 's word) bitvector)"
  unfolding bitvector_n_value_def Let_def
  by (rule constructor_consistent[OF assms]) (simp add: vector_resize_value_def length_vector_resize)

lemma assign_loop_consistent:
  fixes bv :: "('a::len word, 's::len word) bitvector"
  assumes "consistent bv" "unat (size_bv bv) + length xs + LENGTH('a) - 1 < 2 ^ LENGTH('s)"
    and "assign_loop junk bv xs = Some bv'"
  shows "consistent bv'"
  using assms
proof (induction xs arbitrary: bv)
  case Nil
  then show ?case by simp
next
  case (Cons x xs)
  from Cons.prems(3) obtain bv1 where p: "pushBack_value junk bv x = Some bv1"
    and l: "assign_loop junk bv1 xs = Some bv'"
    by (auto split: option.splits)
  have b1: "unat (size_bv bv) + 1 + LENGTH('a) - 1 < 2 ^ LENGTH('s)"
    using Cons.prems(2) by simp
  have c1: "consistent bv1" by (rule pushBack_value_consistent[OF Cons.prems(1) b1 p])
  have "1 \<le> LENGTH('a)" by (simp add: Suc_leI)
  then have "unat (size_bv bv) + 1 < 2 ^ LENGTH('s)" using b1 by linarith
  then have "unat (size_bv bv) + unat (1 :: 's word) < 2 ^ LENGTH('s)" by simp
  then have "unat (size_bv bv + 1) = unat (size_bv bv) + 1"
    by (simp add: unat_add_lem[THEN iffD1])
  then have s1: "unat (size_bv bv1) = unat (size_bv bv) + 1"
    by (simp only: pushBack_value_shape(3)[OF p])
  have b2: "unat (size_bv bv1) + length xs + LENGTH('a) - 1 < 2 ^ LENGTH('s)"
    using Cons.prems(2) s1 by simp
  show ?case by (rule Cons.IH[OF c1 b2 l])
qed

lemma assign_consistent:
  fixes bv :: "('a::len word, 's::len word) bitvector"
  assumes "length xs + LENGTH('a) - 1 < 2 ^ LENGTH('s)" "assign junk bv xs = Some bv'"
  shows "consistent bv'"
proof -
  have c: "clear bv = \<lparr>mContainer = [], mFreeBitCount = 0\<rparr>" by (simp add: clear_def)
  have w: "consistent (clear bv)" unfolding c by (rule empty_state_consistent)
  have "size_bv (clear bv) = 0" by (simp add: c size_bv_def vector_size_def)
  then have b: "unat (size_bv (clear bv)) + length xs + LENGTH('a) - 1 < 2 ^ LENGTH('s)"
    using assms(1) by simp
  have l: "assign_loop junk (clear bv) xs = Some bv'" using assms(2) by (simp add: assign_def)
  show ?thesis by (rule assign_loop_consistent[OF w b l])
qed

lemma resize_fill_loop_shape:
  fixes bv :: "('a::len word, 's::len word) bitvector"
  assumes "resize_fill_loop junk bv newbits v = Some (bv2, nb2)"
  shows "length (mContainer bv2) = length (mContainer bv)
       \<and> unat (mFreeBitCount bv2) = unat (mFreeBitCount bv) - min (unat (mFreeBitCount bv)) (unat newbits)
       \<and> unat nb2 = unat newbits - min (unat (mFreeBitCount bv)) (unat newbits)"
  using assms
proof (induction junk bv newbits v rule: resize_fill_loop.induct)
  case (1 junk bv newbits v)
  show ?case
  proof (cases "mFreeBitCount bv \<noteq> 0 \<and> newbits \<noteq> 0")
    case True
    from "1.prems" True obtain bv1 where p: "pushBack_value junk bv v = Some bv1"
      and l: "resize_fill_loop junk bv1 (newbits - 1) v = Some (bv2, nb2)"
      by (subst (asm) resize_fill_loop.simps) (auto split: option.splits)
    have f0: "mFreeBitCount bv \<noteq> 0" and n0: "newbits \<noteq> 0" using True by simp_all
    have ih: "length (mContainer bv2) = length (mContainer bv1)
       \<and> unat (mFreeBitCount bv2) = unat (mFreeBitCount bv1) - min (unat (mFreeBitCount bv1)) (unat (newbits - 1))
       \<and> unat nb2 = unat (newbits - 1) - min (unat (mFreeBitCount bv1)) (unat (newbits - 1))"
      using True p l by (intro "1.IH") simp_all
    have f1: "mFreeBitCount bv1 = mFreeBitCount bv - 1"
      using pushBack_value_shape(1)[OF p] by (simp add: pushBack_free[OF f0])
    have l1: "length (mContainer bv1) = length (mContainer bv)"
      using pushBack_value_shape(2)[OF p] by (simp add: pushBack_free[OF f0])
    have uf: "unat (mFreeBitCount bv - 1) = unat (mFreeBitCount bv) - 1" using f0 by (rule unat_pred)
    have un: "unat (newbits - 1) = unat newbits - 1" using n0 by (rule unat_pred)
    have pf: "0 < unat (mFreeBitCount bv)" using f0 by (simp add: unat_gt_0)
    have pn: "0 < unat newbits" using n0 by (simp add: unat_gt_0)
    have m: "min (unat (mFreeBitCount bv)) (unat newbits)
             = Suc (min (unat (mFreeBitCount bv) - 1) (unat newbits - 1))"
      using pf pn by linarith
    show ?thesis using ih unfolding f1 l1 uf un m by simp
  next
    case False
    then have e: "bv2 = bv" "nb2 = newbits"
      using "1.prems" by (subst (asm) resize_fill_loop.simps, auto)+
    have "min (unat (mFreeBitCount bv)) (unat newbits) = 0"
      using False by (auto simp: unat_eq_0)
    then show ?thesis unfolding e by simp
  qed
qed

lemma resize_value_consistent:
  fixes bv :: "('a::len word, 's::len word) bitvector"
  assumes k: "LENGTH('a) < 2 ^ LENGTH('s)" and c: "consistent bv"
    and r: "unat n + LENGTH('a) - 1 < 2 ^ LENGTH('s)"
    and run: "resize_value junk bv n v = Some bv'"
  shows "consistent bv'"
proof -
  let ?k = "LENGTH('a)"
  let ?bv1 = "if n < size_bv bv then resize junk bv n else bv"
  from run obtain bv2 nb2 where
    l: "resize_fill_loop junk ?bv1 (n - size_bv bv) v = Some (bv2, nb2)"
    and e: "bv' = (if nb2 \<noteq> 0 then resize (\<lambda>_. if v then NOT 0 else 0) bv2 n else bv2)"
    by (auto simp: resize_value_def Let_def resize_as_fill split: option.splits if_splits)
  show ?thesis
  proof (cases "nb2 \<noteq> 0")
    case True
    then show ?thesis unfolding e using resize_consistent[OF k r] by simp
  next
    case False
    then have b: "bv' = bv2" and z: "unat nb2 = 0" using e by simp_all
    note sh = resize_fill_loop_shape[OF l]
    have c1: "consistent ?bv1" using c resize_consistent[OF k r, of junk bv] by simp
    have s1: "unat (size_bv ?bv1) = (if n < size_bv bv then unat n else unat (size_bv bv))"
      by (simp add: size_bv_resize)
    let ?f1 = "unat (mFreeBitCount ?bv1)"
    let ?nb = "unat (n - size_bv bv)"
    have nbf: "?nb \<le> ?f1" using sh z by linarith
    have f1k: "?f1 < ?k" using c1 by (simp add: consistent_def)
    have ge: "\<not> n < size_bv bv"
    proof
      assume lt: "n < size_bv bv"
      then have "unat n < unat (size_bv bv)" by (simp add: word_less_nat_alt)
      then have "?nb = 2 ^ LENGTH('s) + unat n - unat (size_bv bv)"
        by (simp add: unat_sub_if')
      moreover have "unat (size_bv bv) + ?k - 1 < 2 ^ LENGTH('s)"
      proof (cases "mContainer bv = []")
        case True
        then have "unat (size_bv bv) = 0" using consistent_size(3)[OF c] by simp
        then show ?thesis using lt by (simp add: word_less_nat_alt)
      next
        case False
        then show ?thesis using c consistent_size(3)[OF c] by (simp add: consistent_def)
      qed
      ultimately show False using nbf f1k by linarith
    qed
    then have bv1: "?bv1 = bv" by simp
    have le: "size_bv bv \<le> n" using ge by simp
    then have nb: "?nb = unat n - unat (size_bv bv)" by (rule unat_sub)
    have sle: "unat (size_bv bv) \<le> unat n" using le by (simp add: word_le_nat_alt)
    have len: "length (mContainer bv2) = length (mContainer bv)" using sh bv1 by simp
    have fr: "unat (mFreeBitCount bv2) = unat (mFreeBitCount bv) - (unat n - unat (size_bv bv))"
      using sh nbf unfolding bv1 nb by simp
    have nbf': "unat n - unat (size_bv bv) \<le> unat (mFreeBitCount bv)" using nbf unfolding bv1 nb .
    have sz: "unat (size_bv bv) = length (mContainer bv) * ?k - unat (mFreeBitCount bv)"
      by (rule consistent_size(3)[OF c])
    have fle: "unat (mFreeBitCount bv) \<le> length (mContainer bv) * ?k" by (rule consistent_size(2)[OF c])
    have fk: "unat (mFreeBitCount bv) < ?k" using c by (simp add: consistent_def)
    show ?thesis
      unfolding b
    proof (rule consistentI)
      show "unat (mFreeBitCount bv2) < ?k" unfolding fr using fk by linarith
      show "mFreeBitCount bv2 = 0" if "mContainer bv2 = []"
      proof -
        have "mContainer bv = []" using that len by simp
        then have "mFreeBitCount bv = 0" using c by (simp add: consistent_def)
        then have "unat (mFreeBitCount bv2) = 0" unfolding fr by simp
        then show ?thesis by (simp only: unat_eq_0)
      qed
      have "length (mContainer bv) * ?k - (unat (mFreeBitCount bv) - (unat n - unat (size_bv bv)))
            = unat n"
        using sz fle nbf' sle by linarith
      then show "length (mContainer bv2) * ?k - unat (mFreeBitCount bv2) + ?k - 1 < 2 ^ LENGTH('s)"
        unfolding len fr using r by simp
    qed
  qed
qed

lemma set_bv_consistent:
  fixes bv :: "('a::len word, 's::len word) bitvector"
  assumes k: "LENGTH('a) < 2 ^ LENGTH('s)" and c: "consistent bv"
    and b: "n < size_bv bv \<or> unat n + 1 + LENGTH('a) - 1 < 2 ^ LENGTH('s)"
    and r: "set_bv junk bv n v = Some bv'"
  shows "consistent bv'"
proof -
  let ?bv1 = "if size_bv bv \<le> n then resize junk bv (n + 1) else bv"
  from r obtain c' where a: "ref_assign (mContainer ?bv1) (iter_add (begin_bv ?bv1) (sint n)) v = Some c'"
    and e: "bv' = ?bv1\<lparr>mContainer := c'\<rparr>"
    by (auto simp: set_bv_def Let_def)
  have c1: "consistent ?bv1"
  proof (cases "size_bv bv \<le> n")
    case True
    then have r1: "unat n + 1 + LENGTH('a) - 1 < 2 ^ LENGTH('s)" using b by auto
    have "1 \<le> LENGTH('a)" by (simp add: Suc_leI)
    then have "unat n + 1 < 2 ^ LENGTH('s)" using r1 by linarith
    then have "unat n + unat (1 :: 's word) < 2 ^ LENGTH('s)" by simp
    then have "unat (n + 1) = unat n + 1" by (simp add: unat_add_lem[THEN iffD1])
    then have "unat (n + 1) + LENGTH('a) - 1 < 2 ^ LENGTH('s)" using r1 by simp
    then show ?thesis using True resize_consistent[OF k, of "n + 1" junk bv] by simp
  next
    case False
    then show ?thesis using c by simp
  qed
  show ?thesis unfolding e using c1 ref_assign_length[OF a] by (rule consistent_store_length)
qed

lemma insert_bv_consistent:
  fixes bv :: "('a::len word, 's::len word) bitvector"
  assumes c: "consistent bv" and b: "unat (size_bv bv) + 1 + LENGTH('a) - 1 < 2 ^ LENGTH('s)"
    and r: "insert_bv asserts junk base base' bv position v = Some (bv', it)"
  shows "consistent bv'"
proof -
  let ?bv1 = "pushBack junk bv"
  from r obtain c0 c' s d t where m: "MoveBits (mContainer ?bv1) s d t = Some c0"
    and a: "ref_assign c0 s v = Some c'" and e: "bv' = ?bv1\<lparr>mContainer := c'\<rparr>"
    by (auto simp: insert_bv_def Let_def split: bind_splits)
  have "length c' = length (mContainer ?bv1)"
    using MoveBits_length[OF m] ref_assign_length[OF a] by simp
  with pushBack_consistent[OF c b] show ?thesis unfolding e by (rule consistent_store_length)
qed

lemma insert_n_consistent:
  fixes bv :: "('a::len word, 's::len word) bitvector"
  assumes k: "LENGTH('a) < 2 ^ LENGTH('s)"
    and b: "unat (size_bv bv) + unat n + LENGTH('a) - 1 < 2 ^ LENGTH('s)"
    and r: "insert_n asserts junk base base' bv position n v = Some bv'"
  shows "consistent bv'"
proof -
  let ?bv1 = "resize junk bv (size_bv bv + n)"
  have "1 \<le> LENGTH('a)" by (simp add: Suc_leI)
  then have "unat (size_bv bv) + unat n < 2 ^ LENGTH('s)" using b by linarith
  then have "unat (size_bv bv + n) = unat (size_bv bv) + unat n"
    by (rule unat_add_lem[THEN iffD1])
  then have "unat (size_bv bv + n) + LENGTH('a) - 1 < 2 ^ LENGTH('s)" using b by simp
  then have c1: "consistent ?bv1" by (rule resize_consistent[OF k])
  from r obtain c0 c' s t d where m: "MoveBits (mContainer ?bv1) s t d = Some c0"
    and a: "insert_fill_loop c0 s d v = Some c'" and e: "bv' = ?bv1\<lparr>mContainer := c'\<rparr>"
    by (auto simp: insert_n_def Let_def split: bind_splits)
  have "length c' = length (mContainer ?bv1)"
    using MoveBits_length[OF m] insert_fill_loop_length[OF a] by simp
  with c1 show ?thesis unfolding e by (rule consistent_store_length)
qed

lemma erase_position_consistent:
  fixes bv :: "('a::len word, 's::len word) bitvector"
  assumes k: "LENGTH('a) < 2 ^ LENGTH('s)"
    and b: "unat (size_bv bv - 1) + LENGTH('a) - 1 < 2 ^ LENGTH('s)"
    and r: "erase_position asserts junk bv position = Some (bv', it)"
  shows "consistent bv'"
proof -
  from r obtain c where m: "MoveBits (mContainer bv) (iter_inc position) (end_bv bv) position = Some c"
    and e: "bv' = resize junk (bv\<lparr>mContainer := c\<rparr>) (size_bv (bv\<lparr>mContainer := c\<rparr>) - 1)"
    by (auto simp: erase_position_def Let_def split: bind_splits)
  have "size_bv (bv\<lparr>mContainer := c\<rparr>) = size_bv bv"
    using MoveBits_length[OF m] by (simp add: size_bv_def vector_size_def)
  then show ?thesis unfolding e using resize_consistent[OF k b] by simp
qed

lemma erase_consistent:
  fixes bv :: "('a::len word, 's::len word) bitvector"
  assumes k: "LENGTH('a) < 2 ^ LENGTH('s)" and c: "consistent bv"
    and b: "iter_eq first last'
            \<or> unat (size_bv bv - word_of_int (iter_diff last' first)) + LENGTH('a) - 1 < 2 ^ LENGTH('s)"
    and r: "erase asserts junk bv first last' = Some (bv', it)"
  shows "consistent bv'"
proof (cases "iter_eq first last'")
  case True
  then have "bv' = bv" using r by (auto simp: erase_def split: bind_splits)
  then show ?thesis using c by simp
next
  case False
  let ?n = "size_bv bv - word_of_int (iter_diff last' first)"
  from r False obtain c0 where m: "MoveBits (mContainer bv) last' (end_bv bv) first = Some c0"
    and e: "bv' = resize junk (bv\<lparr>mContainer := c0\<rparr>)
                    (size_bv (bv\<lparr>mContainer := c0\<rparr>) - word_of_int (iter_diff last' first))"
    by (auto simp: erase_def Let_def split: bind_splits)
  have "size_bv (bv\<lparr>mContainer := c0\<rparr>) = size_bv bv"
    using MoveBits_length[OF m] by (simp add: size_bv_def vector_size_def)
  moreover have "unat ?n + LENGTH('a) - 1 < 2 ^ LENGTH('s)" using b False by simp
  ultimately show ?thesis unfolding e using resize_consistent[OF k, of ?n] by simp
qed

lemma reachable_in_range_consistent:
  fixes bv :: "('a::len word, 's::len word) bitvector"
  assumes k: "LENGTH('a) < 2 ^ LENGTH('s)" and "reachable_in_range bv"
  shows "consistent bv"
  using assms(2)
proof (induction rule: reachable_in_range.induct)
  case b_default
  show ?case unfolding bitvector_default_def by (rule empty_state_consistent)
next
  case (b_n n junk)
  with k show ?case by (rule bitvector_n_consistent)
next
  case (b_n_value n v)
  with k show ?case by (rule bitvector_n_value_consistent)
next
  case (b_range xs junk bv)
  from b_range(2) have "assign junk bitvector_default xs = Some bv"
    by (simp add: bitvector_range_def)
  with b_range(1) show ?case by (rule assign_consistent)
next
  case (b_assign bv xs junk bv')
  from b_assign(2,3) show ?case by (rule assign_consistent)
next
  case (b_pushBack bv junk)
  from b_pushBack(3,2) show ?case by (rule pushBack_consistent)
next
  case (b_pushBack_value bv junk v bv')
  from b_pushBack_value(4,2,3) show ?case by (rule pushBack_value_consistent)
next
  case (b_popBack bv bv')
  from b_popBack(3,2) show ?case by (rule popBack_consistent)
next
  case (b_resize bv n junk)
  from k b_resize(2) show ?case by (rule resize_consistent)
next
  case (b_resize_value bv n junk v bv')
  from k b_resize_value(4,2,3) show ?case by (rule resize_value_consistent)
next
  case (b_set bv n junk v bv')
  from k b_set(4,2,3) show ?case by (rule set_bv_consistent)
next
  case (b_insert bv asserts junk base base' position v bv' it)
  from b_insert(4,2,3) show ?case by (rule insert_bv_consistent)
next
  case (b_insert_n bv n asserts junk base base' position v bv')
  from k b_insert_n(2,3) show ?case by (rule insert_n_consistent)
next
  case (b_erase_position bv asserts junk position bv' it)
  from k b_erase_position(2,3) show ?case by (rule erase_position_consistent)
next
  case (b_erase bv first last' asserts junk bv' it)
  from k b_erase(4,2,3) show ?case by (rule erase_consistent)
next
  case (b_clear bv)
  show ?case unfolding clear_def by (rule empty_state_consistent)
next
  case (b_resetLoseMemory bv)
  show ?case unfolding resetLoseMemory_def by (rule empty_state_consistent)
next
  case (b_setCapacity bv n)
  then show ?case by (simp add: setCapacity_def vector_setCapacity_def)
qed

text \<open>
  Claim C10, amended. In every state reached from a constructor by public operations in
  which no size wraps (for every size \<open>n\<close> that an operation is asked for, passes to
  \<^verbatim>\<open>resize\<close> or reaches, \<open>n + kBitCount - 1\<close> does not exceed the largest \<^verbatim>\<open>size_type\<close> value),
  the store is empty if and only if \<^verbatim>\<open>size()\<close> is 0, \<open>wordCount = 0\<close> implies
  \<open>mFreeBitCount = 0\<close>, \<^verbatim>\<open>empty()\<close> is true exactly when \<^verbatim>\<open>size()\<close> is 0, and \<^verbatim>\<open>size()\<close> does
  not underflow: \<open>wordCount * kBitCount\<close> does not wrap and is at least \<open>mFreeBitCount\<close>.
  \<open>kBitCount\<close> is taken to be a \<^verbatim>\<open>size_type\<close> value.
\<close>

theorem empty_iff_size_zero:
  fixes bv :: "('a::len word, 's::len word) bitvector"
  assumes "LENGTH('a) < 2 ^ LENGTH('s)" and "reachable_in_range bv"
  shows "(mContainer bv = [] \<longleftrightarrow> size_bv bv = 0)
    \<and> (mContainer bv = [] \<longrightarrow> mFreeBitCount bv = 0)
    \<and> (empty_bv bv \<longleftrightarrow> size_bv bv = 0)
    \<and> length (mContainer bv) * LENGTH('a) < 2 ^ LENGTH('s)
    \<and> unat (mFreeBitCount bv) \<le> length (mContainer bv) * LENGTH('a)
    \<and> unat (size_bv bv) = length (mContainer bv) * LENGTH('a) - unat (mFreeBitCount bv)"
proof -
  let ?k = "LENGTH('a)"
  let ?c = "mContainer bv"
  have w: "consistent bv" using assms by (rule reachable_in_range_consistent)
  have f: "unat (mFreeBitCount bv) < ?k" and z: "?c = [] \<longrightarrow> mFreeBitCount bv = 0"
    using w by (simp_all add: consistent_def)
  note r = consistent_size(1)[OF w] and le = consistent_size(2)[OF w] and u = consistent_size(3)[OF w]
  have e: "?c = [] \<longleftrightarrow> size_bv bv = 0"
  proof
    assume "?c = []"
    then have "unat (size_bv bv) = 0" using u by simp
    then show "size_bv bv = 0" by (simp add: unat_eq_0)
  next
    assume "size_bv bv = 0"
    then have 0: "length ?c * ?k - unat (mFreeBitCount bv) = 0" using u by simp
    show "?c = []"
    proof (rule ccontr)
      assume "?c \<noteq> []"
      then have "1 \<le> length ?c" by (simp add: Suc_leI)
      then have "1 * ?k \<le> length ?c * ?k" by (rule mult_le_mono1)
      then have "?k \<le> length ?c * ?k" by (simp only: mult_1)
      moreover have "length ?c * ?k \<le> unat (mFreeBitCount bv)" using 0 by linarith
      ultimately show False using f by linarith
    qed
  qed
  show ?thesis using e z r le u by (simp add: empty_bv_def)
qed

theorem empty_iff_size_zero_witness:
  "reachable_in_range (bitvector_n_value 200 True :: (8 word, 8 word) bitvector)
   \<and> length (mContainer (bitvector_n_value 200 True :: (8 word, 8 word) bitvector)) = 25
   \<and> mFreeBitCount (bitvector_n_value 200 True :: (8 word, 8 word) bitvector) = 0
   \<and> size_bv (bitvector_n_value 200 True :: (8 word, 8 word) bitvector) = 200
   \<and> unat (size_bv (bitvector_n_value 200 True :: (8 word, 8 word) bitvector)) = 200
   \<and> reachable_in_range (resize zero_fill (bitvector_n_value 200 True :: (8 word, 8 word) bitvector) 0)
   \<and> mContainer (resize zero_fill (bitvector_n_value 200 True :: (8 word, 8 word) bitvector) 0) = []
   \<and> size_bv (resize zero_fill (bitvector_n_value 200 True :: (8 word, 8 word) bitvector) 0) = 0
   \<and> mFreeBitCount (resize zero_fill (bitvector_n_value 200 True :: (8 word, 8 word) bitvector) 0) = 0"
proof -
  let ?bv = "bitvector_n_value 200 True :: (8 word, 8 word) bitvector"
  have k: "LENGTH(8) < 2 ^ LENGTH(8)" by simp
  have b1: "unat (200 :: 8 word) + LENGTH(8) - 1 < 2 ^ LENGTH(8)" by simp
  have b2: "unat (0 :: 8 word) + LENGTH(8) - 1 < 2 ^ LENGTH(8)" by simp
  have r1: "reachable_in_range ?bv" using b1 by (rule b_n_value)
  have r2: "reachable_in_range (resize zero_fill ?bv 0)" using r1 b2 by (rule b_resize)
  have l: "length (mContainer ?bv) = 25" by code_simp
  have f: "mFreeBitCount ?bv = 0" by code_simp
  have s: "size_bv ?bv = 200" by code_simp
  have e2: "mContainer (resize zero_fill ?bv 0) = []" by (simp add: resize_zero)
  have 1: "unat (size_bv ?bv) = 200"
    using empty_iff_size_zero[OF k r1] by (simp add: l f)
  have 2: "size_bv (resize zero_fill ?bv 0) = 0"
    using empty_iff_size_zero[OF k r2, THEN conjunct1] e2 by simp
  have 3: "mFreeBitCount (resize zero_fill ?bv 0) = 0"
    using empty_iff_size_zero[OF k r2, THEN conjunct2, THEN conjunct1] e2 by simp
  show ?thesis using r1 l f s 1 r2 e2 2 3 by blast
qed

text \<open>The claim as stated, for every reachable state, with 32-bit words and a 64-bit
  \<^verbatim>\<open>size_type\<close>: the constructor \<^verbatim>\<open>bitvector(n)\<close> with \<open>n = 2^64 - 2\<close> computes the word count
  from the sum \<open>n + kBitCount - 1\<close>, which wraps. The store is empty, \<open>mFreeBitCount\<close> is 2,
  \<^verbatim>\<open>empty()\<close> is true and \<^verbatim>\<open>size()\<close> is \<open>0 - 2\<close>, that is \<open>n\<close>.\<close>

theorem empty_with_free_bits_counterexample:
  "reachable (bitvector_n zero_fill (- 2) :: (32 word, 64 word) bitvector)
   \<and> (bitvector_n zero_fill (- 2) :: (32 word, 64 word) bitvector)
       = \<lparr>mContainer = [], mFreeBitCount = 2\<rparr>
   \<and> empty_bv (bitvector_n zero_fill (- 2) :: (32 word, 64 word) bitvector)
   \<and> size_bv (bitvector_n zero_fill (- 2) :: (32 word, 64 word) bitvector) = - 2
   \<and> size_bv (bitvector_n zero_fill (- 2) :: (32 word, 64 word) bitvector) \<noteq> 0"
proof -
  let ?a = "bitvector_n zero_fill (- 2) :: (32 word, 64 word) bitvector"
  have a0: "reachable ?a" by (rule r_n)
  have a1: "?a = \<lparr>mContainer = [], mFreeBitCount = 2\<rparr>" by code_simp
  have a2: "empty_bv ?a" by code_simp
  have a3: "size_bv ?a = - 2" by code_simp
  have a4: "size_bv ?a \<noteq> 0" unfolding a3 by simp
  show ?thesis using a0 a1 a2 a3 a4 by blast
qed

end
